theory Spec2Isabelle
  imports Complex_Main "HOL-Library.Multiset" "HOL-Library.Sublist" "HOL-Library.Product_Lexorder"
begin

section \<open>Data model of \<open>lib.ts\<close>\<close>

text \<open>
  The library is written in TypeScript. Its numbers are modelled as exact reals:
  coordinates, tolerances and divisors are finite values and arithmetic on them is exact
  (rounding error of IEEE doubles and non-finite \<^emph>\<open>inputs\<close> are outside the model).
  The non-finite values that \<^emph>\<open>finite\<close> inputs can produce (a division by a zero
  \<open>characterWidthDivisor\<close>) are modelled, see \<open>jsnum\<close> below.
  Strings are lists of characters; \<open>length\<close> is the source's \<open>.length\<close>.

  The fields \<open>x\<close> and \<open>y\<close> of \<open>TextItem\<close> are named \<open>xpos\<close> and \<open>ypos\<close>; the
  fields \<open>text\<close> and \<open>pages\<close> of \<open>PdfLayoutData\<close> are named \<open>text_out\<close> and
  \<open>numPages\<close>; the fields of a viewport carry the prefix \<open>vp_\<close>, and the optional
  fields of \<open>PdfExtractionOptions\<close> the suffix \<open>_opt\<close> (\<open>None\<close> is an option that is
  not given). Every other name is the source's.
\<close>

record PdfExtractionOptions =
  includeLayout_opt :: "bool option"
  yTolerance_opt :: "real option"
  characterWidthDivisor_opt :: "real option"
  enableDebug_opt :: "bool option"

text \<open>\<open>Required<PdfExtractionOptions>\<close>: every option present.\<close>

record Options =
  includeLayout :: bool
  yTolerance :: real
  characterWidthDivisor :: real
  enableDebug :: bool

record PdfMetadata =
  title :: "string option"
  author :: "string option"
  subject :: "string option"
  creator :: "string option"
  producer :: "string option"
  creationDate :: "string option"
  modificationDate :: "string option"
  pages :: nat

text \<open>The transformation matrix of pdf.js has six entries; \<open>x\<close> and \<open>y\<close> are
  entries 4 and 5.\<close>

type_synonym transform = "real \<times> real \<times> real \<times> real \<times> real \<times> real"

record PdfTextItem =
  str :: string
  dir :: string
  width :: real
  height :: real
  transform :: transform
  fontName :: string
  hasEOL :: bool

record TextItem = PdfTextItem +
  xpos :: real
  ypos :: real

record Viewport =
  vp_width :: real
  vp_height :: real
  vp_scale :: real

record PageLayoutData =
  pageNumber :: int
  textItems :: "TextItem list"
  viewport :: Viewport

section \<open>Built-ins of the language used by \<open>reconstructLayout\<close>\<close>

subsection \<open>\<open>Array.prototype.sort\<close>\<close>

text \<open>
  The comparator returns a number; an element \<open>a\<close> goes before \<open>b\<close> when the number
  is negative, and elements that compare as equal keep their order (the sort is stable).
  The model is the stable insertion sort. For a comparator that is a consistent ordering
  of the elements this is the one result the language allows; for an inconsistent
  comparator the language leaves the order to the implementation, and the model fixes
  the insertion sort. The comparator of the initial sort is not transitive (two items
  less than 10 apart in \<open>y\<close> are compared by \<open>x\<close>), so on a page where it is inconsistent
  an engine may process the items in another order than the model. The statements of
  this theory use the order of the initial sort only where the comparator is consistent
  (two items; items whose \<open>y\<close> are pairwise equal or at least 10 apart); the facts about
  the groups of the first pass are proved for every order of processing.
\<close>

fun insert_cmp :: "('a \<Rightarrow> 'a \<Rightarrow> real) \<Rightarrow> 'a \<Rightarrow> 'a list \<Rightarrow> 'a list" where
  "insert_cmp cmp a [] = [a]"
| "insert_cmp cmp a (b # bs) =
     (if cmp a b \<le> 0 then a # b # bs else b # insert_cmp cmp a bs)"

fun sort_cmp :: "('a \<Rightarrow> 'a \<Rightarrow> real) \<Rightarrow> 'a list \<Rightarrow> 'a list" where
  "sort_cmp cmp [] = []"
| "sort_cmp cmp (a # as) = insert_cmp cmp a (sort_cmp cmp as)"

subsection \<open>\<open>Map\<close> with number keys\<close>

text \<open>
  A \<open>Map\<close> iterates its entries in the order the keys were first set; \<open>set\<close> on a key
  that is present replaces the value and keeps the entry's place. The model is an
  association list in insertion order.
\<close>

type_synonym 'v jsmap = "(real \<times> 'v) list"

fun map_set :: "real \<Rightarrow> 'v \<Rightarrow> 'v jsmap \<Rightarrow> 'v jsmap" where
  "map_set k v [] = [(k, v)]"
| "map_set k v ((k', v') # rest) =
     (if k' = k then (k, v) # rest else (k', v') # map_set k v rest)"

section \<open>\<open>reconstructLayout\<close>: the initial sort and the row clustering\<close>

text \<open>The comparator of the initial sort (\<open>sortedItems\<close>).\<close>

definition itemCompare :: "TextItem \<Rightarrow> TextItem \<Rightarrow> real" where
  "itemCompare a b =
     (let yDiff = ypos b - ypos a
      in if \<bar>yDiff\<bar> < 10 then xpos a - xpos b else yDiff)"

definition sortedItems :: "PageLayoutData \<Rightarrow> TextItem list" where
  "sortedItems page = sort_cmp itemCompare (textItems page)"

text \<open>
  The inner loop of the first pass: scan the groups in the map's order, push the item
  to the first group whose key is within the tolerance and stop; \<open>None\<close> is
  \<open>foundGroup = false\<close>.
\<close>

fun pushToGroup :: "real \<Rightarrow> TextItem \<Rightarrow> TextItem list jsmap \<Rightarrow> TextItem list jsmap option" where
  "pushToGroup tol item [] = None"
| "pushToGroup tol item ((groupY, groupItems) # rest) =
     (if \<bar>ypos item - groupY\<bar> < tol then Some ((groupY, groupItems @ [item]) # rest)
      else (case pushToGroup tol item rest of
              None \<Rightarrow> None
            | Some rest' \<Rightarrow> Some ((groupY, groupItems) # rest')))"

definition clusterStep :: "real \<Rightarrow> TextItem list jsmap \<Rightarrow> TextItem \<Rightarrow> TextItem list jsmap" where
  "clusterStep tol yGroups item =
     (case pushToGroup tol item yGroups of
        Some yGroups' \<Rightarrow> yGroups'
      | None \<Rightarrow> map_set (ypos item) [item] yGroups)"

definition clusterItems :: "real \<Rightarrow> TextItem list \<Rightarrow> TextItem list jsmap" where
  "clusterItems tol items = foldl (clusterStep tol) [] items"

text \<open>The groups of a page after the first pass.\<close>

definition yGroups :: "Options \<Rightarrow> PageLayoutData \<Rightarrow> TextItem list jsmap" where
  "yGroups options page = clusterItems (yTolerance options) (sortedItems page)"

text \<open>
  The second pass: the entries sorted by descending key, each group sorted by ascending
  \<open>x\<close>.
\<close>

definition sortedYGroups :: "TextItem list jsmap \<Rightarrow> TextItem list jsmap" where
  "sortedYGroups groups = sort_cmp (\<lambda>(a, _) (b, _). b - a) groups"

definition pageLines :: "Options \<Rightarrow> PageLayoutData \<Rightarrow> TextItem list list" where
  "pageLines options page =
     map (\<lambda>(_, groupItems). sort_cmp (\<lambda>a b. xpos a - xpos b) groupItems)
       (sortedYGroups (yGroups options page))"

section \<open>Numbers that can be non-finite\<close>

text \<open>
  A column position is \<open>Math.round\<close> of a quotient. With a zero divisor the quotient of
  finite numbers is \<open>NaN\<close> or an infinity, and \<open>Math.round\<close> keeps it; every later
  position is computed from it. \<open>Fin n\<close> is the integer \<open>n\<close>. The zero of the reals
  stands for the positive zero of the language.
\<close>

datatype jsnum = Fin int | PosInfinity | NegInfinity | NaN

text \<open>\<open>Math.round(n / d)\<close> for finite \<open>n\<close> and \<open>d\<close>; a tie goes to the larger integer.\<close>

definition roundDiv :: "real \<Rightarrow> real \<Rightarrow> jsnum" where
  "roundDiv n d =
     (if d = 0 then (if n = 0 then NaN else if 0 < n then PosInfinity else NegInfinity)
      else Fin (round (n / d)))"

fun js_add :: "jsnum \<Rightarrow> jsnum \<Rightarrow> jsnum" where
  "js_add (Fin a) (Fin b) = Fin (a + b)"
| "js_add NaN _ = NaN"
| "js_add _ NaN = NaN"
| "js_add PosInfinity NegInfinity = NaN"
| "js_add NegInfinity PosInfinity = NaN"
| "js_add PosInfinity _ = PosInfinity"
| "js_add _ PosInfinity = PosInfinity"
| "js_add NegInfinity _ = NegInfinity"
| "js_add _ NegInfinity = NegInfinity"

fun js_neg :: "jsnum \<Rightarrow> jsnum" where
  "js_neg (Fin a) = Fin (- a)"
| "js_neg PosInfinity = NegInfinity"
| "js_neg NegInfinity = PosInfinity"
| "js_neg NaN = NaN"

definition js_sub :: "jsnum \<Rightarrow> jsnum \<Rightarrow> jsnum" where
  "js_sub a b = js_add a (js_neg b)"

text \<open>\<open>a < b\<close>: false when either side is \<open>NaN\<close>.\<close>

fun js_less :: "jsnum \<Rightarrow> jsnum \<Rightarrow> bool" where
  "js_less (Fin a) (Fin b) = (a < b)"
| "js_less NaN _ = False"
| "js_less _ NaN = False"
| "js_less _ NegInfinity = False"
| "js_less PosInfinity _ = False"
| "js_less NegInfinity _ = True"
| "js_less _ PosInfinity = True"

text \<open>\<open>Math.max(a, b)\<close>: \<open>NaN\<close> when either argument is \<open>NaN\<close>.\<close>

fun js_max :: "jsnum \<Rightarrow> jsnum \<Rightarrow> jsnum" where
  "js_max NaN _ = NaN"
| "js_max _ NaN = NaN"
| "js_max a b = (if js_less a b then b else a)"

section \<open>Strings\<close>

definition digitChar :: "nat \<Rightarrow> char" where
  "digitChar d = ''0123456789'' ! d"

text \<open>The decimal digits of a natural number, as a template literal prints it.\<close>

fun showNat :: "nat \<Rightarrow> string" where
  "showNat n = (if n < 10 then [digitChar n] else showNat (n div 10) @ [digitChar (n mod 10)])"

declare showNat.simps [simp del]

definition showInt :: "int \<Rightarrow> string" where
  "showInt n = (if n < 0 then ''-'' @ showNat (nat (- n)) else showNat (nat n))"

text \<open>
  \<open>v.toFixed(2)\<close>: the sign of \<open>v\<close>, then the integer nearest to \<open>|v| * 100\<close> (a tie
  goes to the larger one) with a point before its last two digits. Beyond \<open>10^21\<close> the
  language prints an exponent instead; coordinates of that size are outside the model.
\<close>

definition toFixed2 :: "real \<Rightarrow> string" where
  "toFixed2 v =
     (let n = nat (round (\<bar>v\<bar> * 100))
      in (if v < 0 then ''-'' else []) @ showNat (n div 100) @ ''.'' @
         [digitChar (n div 10 mod 10), digitChar (n mod 10)])"

datatype js_error = RangeError string | Error string

fun errorMessage :: "js_error \<Rightarrow> string" where
  "errorMessage (RangeError m) = m"
| "errorMessage (Error m) = m"

text \<open>
  \<open>" ".repeat(count)\<close>: a \<open>RangeError\<close> for a negative or infinite count, the empty
  string for \<open>NaN\<close>.
\<close>

fun repeat_space :: "jsnum \<Rightarrow> js_error + string" where
  "repeat_space (Fin n) =
     (if n < 0 then Inl (RangeError (''Invalid count value: '' @ showInt n))
      else Inr (replicate (nat n) (CHR '' '')))"
| "repeat_space PosInfinity = Inl (RangeError ''Invalid count value: Infinity'')"
| "repeat_space NegInfinity = Inl (RangeError ''Invalid count value: -Infinity'')"
| "repeat_space NaN = Inr []"

text \<open>
  \<open>trimEnd\<close> removes the white space and line terminators at the end. A \<open>char\<close> is a
  code unit below 256; the white space among these is tab, line feed, vertical tab, form
  feed, carriage return, space and the no-break space.
\<close>

definition isWhiteSpace :: "char \<Rightarrow> bool" where
  "isWhiteSpace c \<longleftrightarrow>
     c = CHR 0x09 \<or> c = CHR 0x0A \<or> c = CHR 0x0B \<or> c = CHR 0x0C \<or> c = CHR 0x0D \<or>
     c = CHR 0x20 \<or> c = CHR 0xA0"

definition trimEnd :: "string \<Rightarrow> string" where
  "trimEnd s = rev (dropWhile isWhiteSpace (rev s))"

section \<open>\<open>reconstructLayout\<close>: lines, pages and the document\<close>

text \<open>
  \<open>Math.min(...page.textItems.map((item) => item.x))\<close>. Without arguments \<open>Math.min\<close>
  is \<open>Infinity\<close>; \<open>reconstructLayout\<close> leaves a page without items before this line,
  and the value given here for the empty list is never used.
\<close>

definition leftmostX :: "PageLayoutData \<Rightarrow> real" where
  "leftmostX page = (case map xpos (textItems page) of [] \<Rightarrow> 0 | v # vs \<Rightarrow> fold min vs v)"

text \<open>
  One round of the loop over the items of a line, at index \<open>i\<close>, on the state
  \<open>(lineText, lastPos)\<close>.
\<close>

definition lineStep ::
  "Options \<Rightarrow> real \<Rightarrow> TextItem list \<Rightarrow> nat \<Rightarrow> string \<times> jsnum \<Rightarrow> js_error + string \<times> jsnum" where
  "lineStep options leftmost line i st =
     (case st of (lineText, lastPos) \<Rightarrow>
        let item = line ! i;
            targetPos = roundDiv (xpos item - leftmost) (characterWidthDivisor options);
            spacesNeeded = js_max (Fin 0) (js_sub targetPos lastPos)
        in case (if js_less (Fin 0) spacesNeeded then repeat_space spacesNeeded else Inr []) of
             Inl e \<Rightarrow> Inl e
           | Inr spaces \<Rightarrow>
               let lineText1 = lineText @ spaces @ str item;
                   lastPos1 = js_add targetPos (Fin (int (length (str item))))
               in if int i < int (length line) - 1 then
                    let nextItem = line ! (i + 1);
                        nextTargetPos =
                          roundDiv (xpos nextItem - leftmost) (characterWidthDivisor options);
                        gapSize =
                          js_sub nextTargetPos (js_add targetPos (Fin (int (length (str item)))))
                    in if js_less (Fin 0) gapSize \<and> js_less gapSize (Fin 3)
                       then Inr (lineText1 @ '' '', js_add lastPos1 (Fin 1))
                       else Inr (lineText1, lastPos1)
                  else Inr (lineText1, lastPos1))"

function lineLoop ::
  "Options \<Rightarrow> real \<Rightarrow> TextItem list \<Rightarrow> nat \<Rightarrow> string \<times> jsnum \<Rightarrow> js_error + string \<times> jsnum" where
  "lineLoop options leftmost line i st =
     (if i < length line then
        (case lineStep options leftmost line i st of
           Inl e \<Rightarrow> Inl e
         | Inr st' \<Rightarrow> lineLoop options leftmost line (i + 1) st')
      else Inr st)"
  by pat_completeness auto
termination
  by (relation "measure (\<lambda>(options, leftmost, line, i, st). length line - i)") auto

declare lineLoop.simps [simp del]

definition renderLine :: "Options \<Rightarrow> real \<Rightarrow> TextItem list \<Rightarrow> js_error + string" where
  "renderLine options leftmost line =
     (case lineLoop options leftmost line 0 ([], Fin 0) of
        Inl e \<Rightarrow> Inl e
      | Inr (lineText, lastPos) \<Rightarrow> Inr (trimEnd lineText @ ''\<newline>''))"

text \<open>The loop over the lines of a page, appending to \<open>layoutText\<close>.\<close>

fun renderLines :: "Options \<Rightarrow> real \<Rightarrow> TextItem list list \<Rightarrow> string \<Rightarrow> js_error + string" where
  "renderLines options leftmost [] layoutText = Inr layoutText"
| "renderLines options leftmost (line # rest) layoutText =
     (if length line = 0 then renderLines options leftmost rest layoutText
      else (case renderLine options leftmost line of
              Inl e \<Rightarrow> Inl e
            | Inr s \<Rightarrow> renderLines options leftmost rest (layoutText @ s)))"

text \<open>The records written to \<open>console.error\<close> when \<open>enableDebug\<close> is set.\<close>

definition debugMessage :: "TextItem \<Rightarrow> nat \<Rightarrow> string" where
  "debugMessage item n =
     ''DEBUG: '' @ [CHR 0x22] @ str item @ [CHR 0x22] @ '' y='' @ toFixed2 (ypos item) @
     '' x='' @ toFixed2 (xpos item) @ '' grouped with '' @ showNat n @ '' items''"

definition groupDebug :: "Options \<Rightarrow> TextItem list \<Rightarrow> string list" where
  "groupDebug options groupItems =
     (if enableDebug options
      then map (\<lambda>item. debugMessage item (length groupItems)) groupItems
      else [])"

definition pageDebug :: "Options \<Rightarrow> PageLayoutData \<Rightarrow> string list" where
  "pageDebug options page = concat (map (groupDebug options) (pageLines options page))"

definition pageBanner :: "int \<Rightarrow> string" where
  "pageBanner n =
     ''\<newline>\<newline>'' @ replicate 80 (CHR ''='') @ ''\<newline>'' @
     ''Page '' @ showInt n @ ''\<newline>'' @
     replicate 80 (CHR ''='') @ ''\<newline>\<newline>''"

text \<open>
  One round of the loop over the pages: the text after the page and the records the
  page writes to the diagnostic channel. An error ends the function; the records of the
  page were written before it.
\<close>

definition layoutPage ::
  "Options \<Rightarrow> PageLayoutData \<Rightarrow> string \<Rightarrow> (js_error + string) \<times> string list" where
  "layoutPage options page layoutText =
     (let layoutText1 =
            (if pageNumber page > 1 then layoutText @ pageBanner (pageNumber page)
             else layoutText)
      in if length (sortedItems page) = 0 then (Inr layoutText1, [])
         else (renderLines options (leftmostX page) (pageLines options page) layoutText1,
               pageDebug options page))"

fun reconstructLoop ::
  "Options \<Rightarrow> PageLayoutData list \<Rightarrow> string \<Rightarrow> string list \<Rightarrow> (js_error + string) \<times> string list" where
  "reconstructLoop options [] layoutText logged = (Inr layoutText, logged)"
| "reconstructLoop options (page # rest) layoutText logged =
     (case layoutPage options page layoutText of
        (Inl e, msgs) \<Rightarrow> (Inl e, logged @ msgs)
      | (Inr layoutText', msgs) \<Rightarrow> reconstructLoop options rest layoutText' (logged @ msgs))"

text \<open>The result is the text, or the error thrown, and the diagnostic channel.\<close>

definition reconstructLayout ::
  "PageLayoutData list \<Rightarrow> Options \<Rightarrow> (js_error + string) \<times> string list" where
  "reconstructLayout pageLayouts options = reconstructLoop options pageLayouts [] []"

section \<open>\<open>extractTextFromPdf\<close>\<close>

text \<open>
  Reading the file and parsing it belong to the runtime and to pdf.js. Their outcome is
  the input of the model: \<open>Inl msg\<close> when one of them fails with the message \<open>msg\<close>,
  \<open>Inr pdf\<close> for the parsed document. An entry of a page's text content either has a
  \<open>str\<close> property or is marked content without one.
\<close>

record PdfInfo =
  Title :: "string option"
  Author :: "string option"
  Subject :: "string option"
  Creator :: "string option"
  Producer :: "string option"
  CreationDate :: "string option"
  ModDate :: "string option"

datatype content_item = TextContent PdfTextItem | MarkedContent

record PdfPage =
  textContent :: "content_item list"
  pageViewport :: Viewport

record PdfDocument =
  docPages :: "PdfPage list"
  docVersion :: "string option"
  docInfo :: "PdfInfo option"

record RawData =
  textLength :: nat
  hasMetadata :: bool
  pdfVersion :: string
  totalTextItems :: nat

record PdfLayoutData =
  text_out :: string
  layoutText :: string
  metadata :: PdfMetadata
  version :: string
  numPages :: nat
  pageLayouts :: "PageLayoutData list"
  rawData :: RawData

datatype PdfExtractionResult = FlatText string | LayoutResult PdfLayoutData

text \<open>The defaults, overridden by the options that are given.\<close>

definition mergeOptions :: "PdfExtractionOptions \<Rightarrow> Options" where
  "mergeOptions options =
     \<lparr>includeLayout = (case includeLayout_opt options of None \<Rightarrow> False | Some b \<Rightarrow> b),
      yTolerance = (case yTolerance_opt options of None \<Rightarrow> 2 | Some t \<Rightarrow> t),
      characterWidthDivisor =
        (case characterWidthDivisor_opt options of None \<Rightarrow> 4 | Some d \<Rightarrow> d),
      enableDebug = (case enableDebug_opt options of None \<Rightarrow> False | Some b \<Rightarrow> b)\<rparr>"

text \<open>The loop over the entries of a page's text content.\<close>

fun itemsLoop :: "content_item list \<Rightarrow> TextItem list \<Rightarrow> string \<Rightarrow> TextItem list \<times> string" where
  "itemsLoop [] items extractedText = (items, extractedText)"
| "itemsLoop (MarkedContent # rest) items extractedText =
     itemsLoop rest items extractedText"
| "itemsLoop (TextContent item # rest) items extractedText =
     (case transform item of (t0, t1, t2, t3, t4, t5) \<Rightarrow>
        let x = t4;
            y = t5;
            items1 = items @
              [\<lparr>str = str item, dir = dir item, width = width item, height = height item,
                transform = transform item, fontName = fontName item, hasEOL = hasEOL item,
                xpos = x, ypos = y\<rparr>];
            extractedText1 = extractedText @ str item;
            extractedText2 =
              (if hasEOL item then extractedText1 @ ''\<newline>'' else extractedText1)
        in itemsLoop rest items1 extractedText2)"

text \<open>The loop over the pages, \<open>pageNumber\<close> counting from 1.\<close>

fun pagesLoop ::
  "Options \<Rightarrow> PdfPage list \<Rightarrow> int \<Rightarrow> string \<Rightarrow> PageLayoutData list \<Rightarrow> nat \<Rightarrow>
   string \<times> PageLayoutData list \<times> nat" where
  "pagesLoop opts [] pageNo extractedText layouts totalItems = (extractedText, layouts, totalItems)"
| "pagesLoop opts (page # rest) pageNo extractedText layouts totalItems =
     (case itemsLoop (textContent page) [] extractedText of
        (items', extractedText') \<Rightarrow>
          pagesLoop opts rest (pageNo + 1) extractedText'
            (if includeLayout opts
             then layouts @
               [\<lparr>pageNumber = pageNo, textItems = items', viewport = pageViewport page\<rparr>]
             else layouts)
            (totalItems + length items'))"

text \<open>\<open>v || null\<close> on an optional string: the empty string is falsy.\<close>

fun orNull :: "string option \<Rightarrow> string option" where
  "orNull None = None"
| "orNull (Some v) = (if v = [] then None else Some v)"

fun orUnknown :: "string option \<Rightarrow> string" where
  "orUnknown None = ''unknown''"
| "orUnknown (Some v) = (if v = [] then ''unknown'' else v)"

definition infoField :: "PdfInfo option \<Rightarrow> (PdfInfo \<Rightarrow> string option) \<Rightarrow> string option" where
  "infoField info field = (case info of None \<Rightarrow> None | Some i \<Rightarrow> orNull (field i))"

definition failedToExtract :: "string \<Rightarrow> js_error" where
  "failedToExtract msg = Error (''Failed to extract text from PDF: '' @ msg)"

definition extractTextFromPdf ::
  "string + PdfDocument \<Rightarrow> PdfExtractionOptions \<Rightarrow>
   (js_error + PdfExtractionResult) \<times> string list" where
  "extractTextFromPdf source options =
     (let opts = mergeOptions options
      in case source of
           Inl msg \<Rightarrow> (Inl (failedToExtract msg), [])
         | Inr pdf \<Rightarrow>
             (case pagesLoop opts (docPages pdf) 1 [] [] 0 of
                (extractedText, layouts, totalItems) \<Rightarrow>
                  if includeLayout opts then
                    (case reconstructLayout layouts opts of
                       (Inl e, logged) \<Rightarrow> (Inl (failedToExtract (errorMessage e)), logged)
                     | (Inr layoutText', logged) \<Rightarrow>
                         (Inr (LayoutResult
                            \<lparr>text_out = extractedText,
                             layoutText = layoutText',
                             metadata =
                               \<lparr>title = infoField (docInfo pdf) Title,
                                author = infoField (docInfo pdf) Author,
                                subject = infoField (docInfo pdf) Subject,
                                creator = infoField (docInfo pdf) Creator,
                                producer = infoField (docInfo pdf) Producer,
                                creationDate = infoField (docInfo pdf) CreationDate,
                                modificationDate = infoField (docInfo pdf) ModDate,
                                pages = length (docPages pdf)\<rparr>,
                             version = orUnknown (docVersion pdf),
                             numPages = length (docPages pdf),
                             pageLayouts = layouts,
                             rawData =
                               \<lparr>textLength = length extractedText,
                                hasMetadata = (docInfo pdf \<noteq> None),
                                pdfVersion = orUnknown (docVersion pdf),
                                totalTextItems = totalItems\<rparr>\<rparr>),
                          logged))
                  else (Inr (FlatText extractedText), [])))"

section \<open>The specification's descriptions, for comparison\<close>

text \<open>
  The specification's initial sort: descending \<open>y\<close>, ascending \<open>x\<close> as the secondary key.
\<close>

definition spec_initialSort :: "TextItem list \<Rightarrow> TextItem list" where
  "spec_initialSort items = sort_key (\<lambda>item. (- ypos item, xpos item)) items"

text \<open>
  The specification's line assembly: the fragments of a row from left to right with a
  cursor, the gap before a fragment, the fragment, and the look-ahead space.
\<close>

definition spec_targetColumn :: "real \<Rightarrow> real \<Rightarrow> TextItem \<Rightarrow> int" where
  "spec_targetColumn leftmost divisor item = round ((xpos item - leftmost) / divisor)"

fun spec_assemble :: "real \<Rightarrow> real \<Rightarrow> TextItem list \<Rightarrow> int \<Rightarrow> string" where
  "spec_assemble leftmost divisor [] cursor = []"
| "spec_assemble leftmost divisor [item] cursor =
     replicate (nat (max 0 (spec_targetColumn leftmost divisor item - cursor))) (CHR '' '') @
     str item"
| "spec_assemble leftmost divisor (item # next # rest) cursor =
     (let gap = max 0 (spec_targetColumn leftmost divisor item - cursor);
          cursor1 = spec_targetColumn leftmost divisor item + int (length (str item));
          bridge = spec_targetColumn leftmost divisor next - cursor1
      in replicate (nat gap) (CHR '' '') @ str item @
         (if 0 < bridge \<and> bridge < 3
          then '' '' @ spec_assemble leftmost divisor (next # rest) (cursor1 + 1)
          else spec_assemble leftmost divisor (next # rest) cursor1))"

definition spec_line :: "real \<Rightarrow> real \<Rightarrow> TextItem list \<Rightarrow> string" where
  "spec_line leftmost divisor line = trimEnd (spec_assemble leftmost divisor line 0) @ ''\<newline>''"

text \<open>The number of places at which a pattern occurs in a text.\<close>

fun occurrences :: "string \<Rightarrow> string \<Rightarrow> nat" where
  "occurrences pat [] = (if pat = [] then 1 else 0)"
| "occurrences pat (c # cs) = (if prefix pat (c # cs) then 1 else 0) + occurrences pat cs"

section \<open>Invariants of the clustering\<close>

text \<open>A group is anchored at the \<open>y\<close> of its first item, and every item of it is within the
  tolerance of the anchor.\<close>

definition okgroup :: "real \<Rightarrow> real \<times> TextItem list \<Rightarrow> bool" where
  "okgroup tol g \<longleftrightarrow> snd g \<noteq> [] \<and> ypos (hd (snd g)) = fst g \<and>
                  list_all (\<lambda>item. \<bar>ypos item - fst g\<bar> < tol) (snd g)"

definition anchored :: "real \<Rightarrow> TextItem list jsmap \<Rightarrow> bool" where
  "anchored tol gs = list_all (okgroup tol) gs"

text \<open>Later groups keep the earlier ones: same keys at the same places, items only added.\<close>

definition extends :: "TextItem list jsmap \<Rightarrow> TextItem list jsmap \<Rightarrow> bool" where
  "extends gs gs' \<longleftrightarrow> length gs \<le> length gs' \<and>
     (\<forall>i<length gs. fst (gs' ! i) = fst (gs ! i) \<and> prefix (snd (gs ! i)) (snd (gs' ! i)))"

text \<open>The keys are distinct, and two different keys are at least the tolerance apart.\<close>

definition separated :: "real \<Rightarrow> TextItem list jsmap \<Rightarrow> bool" where
  "separated tol gs \<longleftrightarrow> distinct (map fst gs) \<and>
     (\<forall>a\<in>fst ` set gs. \<forall>b\<in>fst ` set gs. a \<noteq> b \<longrightarrow> tol \<le> \<bar>a - b\<bar>)"

section \<open>Auxiliary notions for the statements\<close>

text \<open>The lines a page adds to the text, after its banner.\<close>

definition pageBody :: "Options \<Rightarrow> PageLayoutData \<Rightarrow> js_error + string" where
  "pageBody options page =
     (if length (sortedItems page) = 0 then Inr []
      else renderLines options (leftmostX page) (pageLines options page) [])"

text \<open>The entries of a page's text content that have a \<open>str\<close>, in order.\<close>

fun textEntries :: "content_item list \<Rightarrow> PdfTextItem list" where
  "textEntries [] = []"
| "textEntries (MarkedContent # rest) = textEntries rest"
| "textEntries (TextContent item # rest) = item # textEntries rest"

text \<open>The fragments of a document in parse order, page by page.\<close>

definition docFragments :: "PdfDocument \<Rightarrow> PdfTextItem list" where
  "docFragments pdf = concat (map (\<lambda>page. textEntries (textContent page)) (docPages pdf))"

text \<open>The flat text of a result, and its layout text when it has one.\<close>

fun flatTextOf :: "PdfExtractionResult \<Rightarrow> string" where
  "flatTextOf (FlatText t) = t"
| "flatTextOf (LayoutResult d) = text_out d"

fun layoutTextOf :: "PdfExtractionResult \<Rightarrow> string option" where
  "layoutTextOf (FlatText t) = None"
| "layoutTextOf (LayoutResult d) = Some (layoutText d)"

text \<open>A text put before the text of a result; an error stays.\<close>

fun prepend :: "string \<Rightarrow> js_error + string \<Rightarrow> js_error + string" where
  "prepend acc (Inl e) = Inl e"
| "prepend acc (Inr s) = Inr (acc @ s)"

text \<open>What a fragment adds to the flat text: its content, and a newline when it ends a line.\<close>

definition flatPiece :: "PdfTextItem \<Rightarrow> string" where
  "flatPiece item = str item @ (if hasEOL item then ''\<newline>'' else [])"

text \<open>The item that \<open>extractTextFromPdf\<close> makes of an entry.\<close>

definition toTextItem :: "PdfTextItem \<Rightarrow> TextItem" where
  "toTextItem item =
     (case transform item of (t0, t1, t2, t3, t4, t5) \<Rightarrow>
        \<lparr>str = str item, dir = dir item, width = width item, height = height item,
         transform = transform item, fontName = fontName item, hasEOL = hasEOL item,
         xpos = t4, ypos = t5\<rparr>)"

text \<open>Reading a decimal numeral back: the digits, their values, and the number they write.\<close>

definition isDigit :: "char \<Rightarrow> bool" where
  "isDigit c \<longleftrightarrow> c \<in> set ''0123456789''"

definition digitValue :: "char \<Rightarrow> nat" where
  "digitValue c = length (takeWhile (\<lambda>d. d \<noteq> c) ''0123456789'')"

definition readNat :: "string \<Rightarrow> nat" where
  "readNat s = foldl (\<lambda>acc c. 10 * acc + digitValue c) 0 s"

section \<open>Example inputs\<close>

definition mkItem :: "string \<Rightarrow> real \<Rightarrow> real \<Rightarrow> TextItem" where
  "mkItem s x y =
     \<lparr>str = s, dir = ''ltr'', width = 0, height = 0, transform = (1, 0, 0, 1, x, y),
      fontName = ''f1'', hasEOL = False, xpos = x, ypos = y\<rparr>"

definition mkPage :: "int \<Rightarrow> TextItem list \<Rightarrow> PageLayoutData" where
  "mkPage n items =
     \<lparr>pageNumber = n, textItems = items,
      viewport = \<lparr>vp_width = 612, vp_height = 792, vp_scale = 1\<rparr>\<rparr>"

definition mkOptions :: "real \<Rightarrow> real \<Rightarrow> bool \<Rightarrow> Options" where
  "mkOptions t d dbg =
     \<lparr>includeLayout = True, yTolerance = t, characterWidthDivisor = d, enableDebug = dbg\<rparr>"

definition exOptions :: Options where
  "exOptions = mkOptions 2 4 False"

definition exRows :: PageLayoutData where
  "exRows = mkPage 1 [mkItem ''c'' 0 50, mkItem ''a'' 0 100, mkItem ''b'' 40 101]"

definition exNear :: PageLayoutData where
  "exNear = mkPage 1 [mkItem ''a'' 0 100, mkItem ''b'' 30 101]"

definition exBoundary :: PageLayoutData where
  "exBoundary = mkPage 1 [mkItem ''a'' 0 100, mkItem ''b'' 30 102]"

definition exNameAge :: PageLayoutData where
  "exNameAge = mkPage 1 [mkItem ''Name'' 0 100, mkItem ''Age'' 40 100]"

definition exThreePages :: "PageLayoutData list" where
  "exThreePages =
     [mkPage 1 [mkItem ''A'' 10 700], mkPage 2 [mkItem ''B'' 10 700],
      mkPage 3 [mkItem ''C'' 10 700]]"

text \<open>The start of a banner: the blank line, the rule and the label up to the number.\<close>

definition bannerStart :: string where
  "bannerStart = ''\<newline>\<newline>'' @ replicate 80 (CHR ''='') @ ''\<newline>Page ''"

definition exCloseLine :: "TextItem list" where
  "exCloseLine = [mkItem ''ab'' 0 100, mkItem ''cd  '' 12 100]"

definition mkPdfItem :: "string \<Rightarrow> real \<Rightarrow> real \<Rightarrow> bool \<Rightarrow> PdfTextItem" where
  "mkPdfItem s x y eol =
     \<lparr>str = s, dir = ''ltr'', width = 0, height = 0, transform = (1, 0, 0, 1, x, y),
      fontName = ''f1'', hasEOL = eol\<rparr>"

definition mkDoc :: "content_item list \<Rightarrow> PdfDocument" where
  "mkDoc entries =
     \<lparr>docPages =
        [\<lparr>textContent = entries,
          pageViewport = \<lparr>vp_width = 612, vp_height = 792, vp_scale = 1\<rparr>\<rparr>],
      docVersion = Some ''1.7'', docInfo = None\<rparr>"

definition mkUserOptions :: "bool \<Rightarrow> real \<Rightarrow> real \<Rightarrow> bool \<Rightarrow> PdfExtractionOptions" where
  "mkUserOptions layout t d dbg =
     \<lparr>includeLayout_opt = Some layout, yTolerance_opt = Some t,
      characterWidthDivisor_opt = Some d, enableDebug_opt = Some dbg\<rparr>"

definition exOneDoc :: PdfDocument where
  "exOneDoc = mkDoc [TextContent (mkPdfItem ''A'' 0 100 False)]"

definition exEolDoc :: PdfDocument where
  "exEolDoc =
     mkDoc [TextContent (mkPdfItem ''A'' 0 100 True), MarkedContent,
            TextContent (mkPdfItem ''B'' 0 90 False)]"

definition exBand :: PageLayoutData where
  "exBand = mkPage 1 [mkItem ''b'' 50 105, mkItem ''a'' 0 100]"

definition exApart :: PageLayoutData where
  "exApart = mkPage 1 [mkItem ''c'' 0 50, mkItem ''b'' 40 100, mkItem ''a'' 0 100]"

definition exBadOptions :: PdfExtractionOptions where
  "exBadOptions = mkUserOptions True 0 (- 4) False"

definition exFlatOptions :: PdfExtractionOptions where
  "exFlatOptions = mkUserOptions False 2 4 False"

definition exLayoutOptions :: PdfExtractionOptions where
  "exLayoutOptions = mkUserOptions True 2 4 False"

text \<open>Three pages whose first fragment holds the start of a banner.\<close>

definition exBannerPages :: "PageLayoutData list" where
  "exBannerPages =
     [mkPage 1 [mkItem (bannerStart @ ''9'') 10 700], mkPage 2 [mkItem ''B'' 10 700],
      mkPage 3 [mkItem ''C'' 10 700]]"

section \<open>The sort and the map\<close>

lemma mset_insert_cmp: "mset (insert_cmp cmp a bs) = add_mset a (mset bs)"
  by (induction bs) auto

lemma mset_sort_cmp: "mset (sort_cmp cmp xs) = mset xs"
  by (induction xs) (auto simp: mset_insert_cmp)

lemma set_sort_cmp: "set (sort_cmp cmp xs) = set xs"
  by (metis mset_sort_cmp set_mset_mset)

lemma pushToGroup_None:
  "pushToGroup tol item gs = None \<longleftrightarrow> (\<forall>g\<in>set gs. \<not> \<bar>ypos item - fst g\<bar> < tol)"
proof (induction gs)
  case Nil then show ?case by simp
next
  case (Cons g gs)
  obtain gy gi where g: "g = (gy, gi)" by (cases g)
  show ?case
  proof (cases "\<bar>ypos item - gy\<bar> < tol")
    case True with g show ?thesis by simp
  next
    case False
    with g Cons.IH show ?thesis by (cases "pushToGroup tol item gs") auto
  qed
qed

lemma pushToGroup_Some:
  assumes "i < length gs" "\<bar>ypos item - fst (gs ! i)\<bar> < tol"
    "\<forall>j<i. \<not> \<bar>ypos item - fst (gs ! j)\<bar> < tol"
  shows "pushToGroup tol item gs = Some (gs[i := (fst (gs ! i), snd (gs ! i) @ [item])])"
  using assms
proof (induction gs arbitrary: i)
  case Nil then show ?case by simp
next
  case (Cons g gs)
  obtain gy gi where g: "g = (gy, gi)" by (cases g)
  show ?case
  proof (cases i)
    case 0
    with Cons.prems g show ?thesis by simp
  next
    case (Suc k)
    have nm: "\<not> \<bar>ypos item - gy\<bar> < tol" using Cons.prems(3) Suc g by auto
    have "pushToGroup tol item gs = Some (gs[k := (fst (gs ! k), snd (gs ! k) @ [item])])"
      using Cons.prems Suc by (intro Cons.IH) auto
    with nm g Suc show ?thesis by simp
  qed
qed

lemma map_set_fresh: "k \<notin> fst ` set m \<Longrightarrow> map_set k v m = m @ [(k, v)]"
  by (induction m) auto

lemma fst_set_map_set: "fst ` set (map_set k v m) = insert k (fst ` set m)"
proof (induction m)
  case Nil then show ?case by simp
next
  case (Cons e m)
  obtain k' v' where e: "e = (k', v')" by (cases e)
  show ?case
  proof (cases "k' = k")
    case True with e show ?thesis by simp
  next
    case False with e Cons.IH show ?thesis by (simp add: insert_commute)
  qed
qed

lemma map_fst_map_set: "set (map fst (map_set k v m)) = insert k (set (map fst m))"
  using fst_set_map_set [of k v m] by simp

lemma distinct_map_set: "distinct (map fst m) \<Longrightarrow> distinct (map fst (map_set k v m))"
proof (induction m)
  case Nil then show ?case by simp
next
  case (Cons e m)
  obtain k' v' where e: "e = (k', v')" by (cases e)
  show ?case
  proof (cases "k' = k")
    case True with Cons.prems e show ?thesis by simp
  next
    case False
    have s: "set (map fst (map_set k v m)) = insert k (set (map fst m))" by (rule map_fst_map_set)
    have d: "distinct (map fst (map_set k v m))" using Cons by simp
    have "k' \<notin> set (map fst m)" using Cons.prems e by simp
    with s False have "k' \<notin> set (map fst (map_set k v m))" by simp
    with d e False show ?thesis by simp
  qed
qed

lemma map_fst_pushToGroup: "pushToGroup tol item gs = Some gs' \<Longrightarrow> map fst gs' = map fst gs"
  by (induction gs arbitrary: gs') (auto split: if_splits option.splits)



section \<open>The first pass\<close>

lemma clusterItems_snoc: "clusterItems tol (xs @ [it]) = clusterStep tol (clusterItems tol xs) it"
  by (simp add: clusterItems_def)

lemma step_nomatch:
  assumes "0 < tol" "\<forall>i<length gs. \<not> \<bar>ypos item - fst (gs ! i)\<bar> < tol"
  shows "clusterStep tol gs item = gs @ [(ypos item, [item])]"
proof -
  have nm: "\<forall>g\<in>set gs. \<not> \<bar>ypos item - fst g\<bar> < tol"
    using assms(2) by (metis in_set_conv_nth)
  then have n: "pushToGroup tol item gs = None" by (simp add: pushToGroup_None)
  have "ypos item \<notin> fst ` set gs"
  proof
    assume "ypos item \<in> fst ` set gs"
    then obtain g where "g \<in> set gs" "fst g = ypos item" by auto
    with nm assms(1) show False by auto
  qed
  then show ?thesis using n by (simp add: clusterStep_def map_set_fresh)
qed

lemma step_match:
  assumes "\<exists>i<length gs. \<bar>ypos item - fst (gs ! i)\<bar> < tol"
  shows "\<exists>i<length gs. \<bar>ypos item - fst (gs ! i)\<bar> < tol \<and>
           (\<forall>j<i. \<not> \<bar>ypos item - fst (gs ! j)\<bar> < tol) \<and>
           clusterStep tol gs item = gs[i := (fst (gs ! i), snd (gs ! i) @ [item])]"
proof -
  define P where "P i \<longleftrightarrow> i < length gs \<and> \<bar>ypos item - fst (gs ! i)\<bar> < tol" for i
  define m where "m = (LEAST i. P i)"
  from assms have ex: "\<exists>i. P i" by (auto simp: P_def)
  then have Pm: "P m" unfolding m_def by (auto intro: LeastI)
  have least: "\<forall>j<m. \<not> P j" unfolding m_def using not_less_Least by blast
  have lt: "m < length gs" and mt: "\<bar>ypos item - fst (gs ! m)\<bar> < tol"
    using Pm by (auto simp: P_def)
  have nj: "\<forall>j<m. \<not> \<bar>ypos item - fst (gs ! j)\<bar> < tol"
    using least lt by (auto simp: P_def)
  have "pushToGroup tol item gs = Some (gs[m := (fst (gs ! m), snd (gs ! m) @ [item])])"
    using lt mt nj by (rule pushToGroup_Some)
  then have "clusterStep tol gs item = gs[m := (fst (gs ! m), snd (gs ! m) @ [item])]"
    by (simp add: clusterStep_def)
  with lt mt nj show ?thesis by blast
qed

lemma okgroup_push:
  "okgroup tol g \<Longrightarrow> \<bar>ypos item - fst g\<bar> < tol \<Longrightarrow> okgroup tol (fst g, snd g @ [item])"
  by (simp add: okgroup_def)

lemma okgroup_new: "0 < tol \<Longrightarrow> okgroup tol (ypos item, [item])"
  by (simp add: okgroup_def)

lemma anchored_step:
  assumes "0 < tol" "anchored tol gs"
  shows "anchored tol (clusterStep tol gs item)"
proof (cases "\<exists>i<length gs. \<bar>ypos item - fst (gs ! i)\<bar> < tol")
  case True
  from step_match [OF True] obtain i where i: "i < length gs"
    "\<bar>ypos item - fst (gs ! i)\<bar> < tol"
    "clusterStep tol gs item = gs[i := (fst (gs ! i), snd (gs ! i) @ [item])]" by blast
  have all: "\<forall>g\<in>set gs. okgroup tol g" using assms(2) by (simp add: anchored_def list_all_iff)
  then have "okgroup tol (gs ! i)" using i(1) by simp
  then have new: "okgroup tol (fst (gs ! i), snd (gs ! i) @ [item])"
    using i(2) by (rule okgroup_push)
  have "set (gs[i := (fst (gs ! i), snd (gs ! i) @ [item])])
          \<subseteq> insert (fst (gs ! i), snd (gs ! i) @ [item]) (set gs)"
    by (rule set_update_subset_insert)
  with all new have "\<forall>g\<in>set (gs[i := (fst (gs ! i), snd (gs ! i) @ [item])]). okgroup tol g"
    by blast
  then show ?thesis unfolding i(3) by (simp add: anchored_def list_all_iff)
next
  case False
  then have "clusterStep tol gs item = gs @ [(ypos item, [item])]"
    using assms(1) by (intro step_nomatch) auto
  with assms show ?thesis by (simp add: anchored_def okgroup_new)
qed

lemma anchored_clusterItems: "0 < tol \<Longrightarrow> anchored tol (clusterItems tol xs)"
proof (induction xs rule: rev_induct)
  case Nil then show ?case by (simp add: clusterItems_def anchored_def)
next
  case (snoc x xs)
  then show ?case by (simp add: clusterItems_snoc anchored_step)
qed

lemma extends_refl: "extends gs gs" by (simp add: extends_def)

lemma extends_trans: "extends a b \<Longrightarrow> extends b c \<Longrightarrow> extends a c"
proof -
  assume ab: "extends a b" and bc: "extends b c"
  have l: "length a \<le> length b" "length b \<le> length c" using ab bc by (simp_all add: extends_def)
  have "fst (c ! i) = fst (a ! i) \<and> prefix (snd (a ! i)) (snd (c ! i))" if "i < length a" for i
  proof -
    have ib: "i < length b" using that l by simp
    have 1: "fst (b ! i) = fst (a ! i)" "prefix (snd (a ! i)) (snd (b ! i))"
      using ab that by (simp_all add: extends_def)
    have 2: "fst (c ! i) = fst (b ! i)" "prefix (snd (b ! i)) (snd (c ! i))"
      using bc ib by (simp_all add: extends_def)
    from 1 2 show ?thesis by (auto intro: prefix_order.trans)
  qed
  with l show ?thesis by (simp add: extends_def)
qed

lemma extends_step: assumes "0 < tol" shows "extends gs (clusterStep tol gs item)"
proof (cases "\<exists>i<length gs. \<bar>ypos item - fst (gs ! i)\<bar> < tol")
  case True
  from step_match [OF True] obtain i where i: "i < length gs"
    "clusterStep tol gs item = gs[i := (fst (gs ! i), snd (gs ! i) @ [item])]" by blast
  have "fst (gs[i := (fst (gs ! i), snd (gs ! i) @ [item])] ! n) = fst (gs ! n) \<and>
        prefix (snd (gs ! n)) (snd (gs[i := (fst (gs ! i), snd (gs ! i) @ [item])] ! n))"
    if "n < length gs" for n
    using that i(1) by (cases "n = i") simp_all
  then show ?thesis unfolding i(2) extends_def by simp
next
  case False
  then have "clusterStep tol gs item = gs @ [(ypos item, [item])]"
    using assms(1) by (intro step_nomatch) auto
  then show ?thesis by (simp add: extends_def nth_append)
qed

lemma extends_clusterItems:
  "0 < tol \<Longrightarrow> extends (clusterItems tol pre) (clusterItems tol (pre @ post))"
proof (induction post rule: rev_induct)
  case Nil then show ?case by (simp add: extends_refl)
next
  case (snoc x xs)
  have "clusterItems tol (pre @ xs @ [x]) = clusterStep tol (clusterItems tol (pre @ xs)) x"
    using clusterItems_snoc [of tol "pre @ xs" x] by simp
  with snoc extends_step [of tol "clusterItems tol (pre @ xs)" x] show ?case
    by (auto intro: extends_trans)
qed



lemma separated_step:
  assumes "separated tol gs"
  shows "separated tol (clusterStep tol gs item)"
proof (cases "pushToGroup tol item gs")
  case (Some gs')
  then have "map fst gs' = map fst gs" by (rule map_fst_pushToGroup)
  then have "distinct (map fst gs') = distinct (map fst gs)" "fst ` set gs' = fst ` set gs"
    by (simp, metis set_map)
  with assms Some show ?thesis by (simp add: clusterStep_def separated_def)
next
  case None
  then have nm: "\<forall>g\<in>set gs. \<not> \<bar>ypos item - fst g\<bar> < tol" by (simp add: pushToGroup_None)
  have eq: "clusterStep tol gs item = map_set (ypos item) [item] gs"
    using None by (simp add: clusterStep_def)
  have d: "distinct (map fst (map_set (ypos item) [item] gs))"
    using assms by (simp add: separated_def distinct_map_set)
  have s: "fst ` set (map_set (ypos item) [item] gs) = insert (ypos item) (fst ` set gs)"
    by (rule fst_set_map_set)
  have far: "tol \<le> \<bar>ypos item - a\<bar> \<and> tol \<le> \<bar>a - ypos item\<bar>" if "a \<in> fst ` set gs" for a
  proof -
    from that obtain g where "g \<in> set gs" "fst g = a" by auto
    with nm have "\<not> \<bar>ypos item - a\<bar> < tol" by auto
    then show ?thesis by linarith
  qed
  have old: "\<forall>a\<in>fst ` set gs. \<forall>b\<in>fst ` set gs. a \<noteq> b \<longrightarrow> tol \<le> \<bar>a - b\<bar>"
    using assms by (simp add: separated_def)
  have "\<forall>a\<in>insert (ypos item) (fst ` set gs). \<forall>b\<in>insert (ypos item) (fst ` set gs).
          a \<noteq> b \<longrightarrow> tol \<le> \<bar>a - b\<bar>"
    using far old by blast
  with d s show ?thesis unfolding eq separated_def by simp
qed

lemma separated_clusterItems: "separated tol (clusterItems tol xs)"
proof (induction xs rule: rev_induct)
  case Nil then show ?case by (simp add: clusterItems_def separated_def)
next
  case (snoc x xs)
  then show ?case by (simp add: clusterItems_snoc separated_step)
qed

lemma separated_nth:
  assumes "separated tol gs" "i < j" "j < length gs"
  shows "fst (gs ! i) \<noteq> fst (gs ! j) \<and> tol \<le> \<bar>fst (gs ! i) - fst (gs ! j)\<bar>"
proof -
  have d: "distinct (map fst gs)" using assms(1) by (simp add: separated_def)
  have i: "i < length gs" using assms by simp
  have "i < length (map fst gs)" "j < length (map fst gs)" "i \<noteq> j"
    using i assms(2,3) by simp_all
  with d have "map fst gs ! i \<noteq> map fst gs ! j"
    by (metis nth_eq_iff_index_eq)
  then have ne: "fst (gs ! i) \<noteq> fst (gs ! j)" using i assms(3) by simp
  have "fst (gs ! i) \<in> fst ` set gs" "fst (gs ! j) \<in> fst ` set gs"
    using i assms(3) by simp_all
  with ne assms(1) show ?thesis unfolding separated_def by blast
qed



section \<open>The line assembly with a non-zero divisor\<close>

lemma roundDiv_fin: "d \<noteq> 0 \<Longrightarrow> roundDiv n d = Fin (round (n / d))"
  by (simp add: roundDiv_def)

lemma js_sub_fin: "js_sub (Fin a) (Fin b) = Fin (a - b)"
  by (simp add: js_sub_def)

lemma lineStep_fin:
  assumes "characterWidthDivisor options \<noteq> 0" "i < length line"
  shows "lineStep options leftmost line i (acc, Fin c) =
    (if Suc i < length line \<and>
        0 < spec_targetColumn leftmost (characterWidthDivisor options) (line ! Suc i)
              - (spec_targetColumn leftmost (characterWidthDivisor options) (line ! i)
                 + int (length (str (line ! i)))) \<and>
        spec_targetColumn leftmost (characterWidthDivisor options) (line ! Suc i)
              - (spec_targetColumn leftmost (characterWidthDivisor options) (line ! i)
                 + int (length (str (line ! i)))) < 3
     then Inr (acc @ replicate (nat (max 0 (spec_targetColumn leftmost
                   (characterWidthDivisor options) (line ! i) - c))) (CHR '' '')
                 @ str (line ! i) @ '' '',
               Fin (spec_targetColumn leftmost (characterWidthDivisor options) (line ! i)
                 + int (length (str (line ! i))) + 1))
     else Inr (acc @ replicate (nat (max 0 (spec_targetColumn leftmost
                   (characterWidthDivisor options) (line ! i) - c))) (CHR '' '')
                 @ str (line ! i),
               Fin (spec_targetColumn leftmost (characterWidthDivisor options) (line ! i)
                 + int (length (str (line ! i))))))"
proof -
  have lt: "(int i < int (length line) - 1) = (Suc i < length line)" by auto
  show ?thesis
    using assms
    by (auto simp: lineStep_def roundDiv_fin js_sub_fin lt spec_targetColumn_def Let_def max_def)
qed

lemma lineLoop_fin:
  assumes d: "characterWidthDivisor options \<noteq> 0"
  shows "i \<le> length line \<Longrightarrow>
    map_sum id fst (lineLoop options leftmost line i (acc, Fin c)) =
      Inr (acc @ spec_assemble leftmost (characterWidthDivisor options) (drop i line) c)"
proof (induction "length line - i" arbitrary: i acc c)
  case 0
  then have "i = length line" by simp
  then show ?case by (simp add: lineLoop.simps)
next
  case (Suc n)
  then have i: "i < length line" by simp
  have dr: "drop i line = line ! i # drop (Suc i) line"
    using i by (simp add: Cons_nth_drop_Suc)
  have n: "n = length line - Suc i" using Suc.hyps(2) by simp
  have le: "Suc i \<le> length line" using i by simp
  note IH = Suc.hyps(1) [OF n le]
  show ?case
  proof (cases "Suc i < length line")
    case True
    have dr2: "drop (Suc i) line = line ! Suc i # drop (Suc (Suc i)) line"
      using True by (simp add: Cons_nth_drop_Suc)
    show ?thesis
      using i True IH
      by (subst lineLoop.simps) (simp add: lineStep_fin [OF d i] dr dr2 Let_def)
  next
    case False
    then have e: "drop (Suc i) line = []" using i by simp
    show ?thesis
      using i False IH
      by (subst lineLoop.simps) (simp add: lineStep_fin [OF d i] dr e)
  qed
qed

lemma renderLine_fin:
  assumes "characterWidthDivisor options \<noteq> 0"
  shows "renderLine options leftmost line =
           Inr (spec_line leftmost (characterWidthDivisor options) line)"
proof -
  have "map_sum id fst (lineLoop options leftmost line 0 ([], Fin 0)) =
      Inr (spec_assemble leftmost (characterWidthDivisor options) line 0)"
    using lineLoop_fin [OF assms, of 0 line leftmost "[]" 0] by simp
  then show ?thesis
    by (cases "lineLoop options leftmost line 0 ([], Fin 0)")
       (auto simp: renderLine_def spec_line_def)
qed

lemma renderLines_fin:
  assumes "characterWidthDivisor options \<noteq> 0"
  shows "renderLines options leftmost lines acc =
     Inr (acc @ concat (map (spec_line leftmost (characterWidthDivisor options))
                          (filter (\<lambda>line. length line \<noteq> 0) lines)))"
  by (induction lines arbitrary: acc) (simp_all add: renderLine_fin [OF assms])

section \<open>Pages and the document\<close>

lemma prepend_Nil: "prepend [] r = r"
  by (cases r) simp_all

lemma prepend_prepend: "prepend a (prepend b r) = prepend (a @ b) r"
  by (cases r) simp_all

lemma renderLines_acc:
  "renderLines options leftmost lines acc = prepend acc (renderLines options leftmost lines [])"
proof (induction lines arbitrary: acc)
  case Nil then show ?case by simp
next
  case (Cons l ls)
  show ?case
  proof (cases "length l = 0")
    case True
    with Cons.IH [of acc] show ?thesis by simp
  next
    case False
    show ?thesis
    proof (cases "renderLine options leftmost l")
      case (Inl e) with False show ?thesis by simp
    next
      case (Inr s)
      have "renderLines options leftmost ls (acc @ s) =
              prepend (acc @ s) (renderLines options leftmost ls [])"
        by (rule Cons.IH)
      moreover have "renderLines options leftmost ls s =
              prepend s (renderLines options leftmost ls [])"
        using Cons.IH [of s] by simp
      ultimately show ?thesis using False Inr
        by (simp add: prepend_prepend)
    qed
  qed
qed

lemma layoutPage_body:
  "fst (layoutPage options page acc) =
     prepend (acc @ (if 1 < pageNumber page then pageBanner (pageNumber page) else []))
       (pageBody options page)"
proof (cases "length (sortedItems page) = 0")
  case True
  then show ?thesis by (simp add: layoutPage_def pageBody_def)
next
  case False
  have 1: "renderLines options (leftmostX page) (pageLines options page)
          (acc @ pageBanner (pageNumber page)) =
        prepend (acc @ pageBanner (pageNumber page))
          (renderLines options (leftmostX page) (pageLines options page) [])"
    by (rule renderLines_acc)
  have 2: "renderLines options (leftmostX page) (pageLines options page) acc =
        prepend acc (renderLines options (leftmostX page) (pageLines options page) [])"
    by (rule renderLines_acc)
  show ?thesis
  proof (cases "1 < pageNumber page")
    case True
    with False 1 show ?thesis by (simp add: layoutPage_def pageBody_def Let_def)
  next
    case npos: False
    with False 2 show ?thesis by (simp add: layoutPage_def pageBody_def Let_def)
  qed
qed

lemma reconstructLoop_Cons_fst:
  "fst (reconstructLoop options (p # ps) acc lg) =
     (case fst (layoutPage options p acc) of Inl e \<Rightarrow> Inl e
      | Inr acc' \<Rightarrow> fst (reconstructLoop options ps acc' (lg @ snd (layoutPage options p acc))))"
proof (cases "layoutPage options p acc")
  case (Pair r msgs)
  then show ?thesis by (cases r) simp_all
qed

lemma reconstructLoop_acc:
  "fst (reconstructLoop options ps acc lg) = prepend acc (fst (reconstructLoop options ps [] []))"
proof (induction ps arbitrary: acc lg)
  case Nil then show ?case by simp
next
  case (Cons p ps)
  let ?b = "if 1 < pageNumber p then pageBanner (pageNumber p) else []"
  show ?case
  proof (cases "pageBody options p")
    case (Inl e)
    then have "fst (layoutPage options p a) = Inl e" for a
      by (simp add: layoutPage_body)
    then show ?thesis by (simp only: reconstructLoop_Cons_fst sum.case prepend.simps)
  next
    case (Inr body)
    then have l: "fst (layoutPage options p a) = Inr (a @ ?b @ body)" for a
      by (simp add: layoutPage_body)
    have 1: "fst (reconstructLoop options ps (acc @ ?b @ body) l1) =
          prepend (acc @ ?b @ body) (fst (reconstructLoop options ps [] []))" for l1
      by (rule Cons.IH)
    have 2: "fst (reconstructLoop options ps (?b @ body) l2) =
          prepend (?b @ body) (fst (reconstructLoop options ps [] []))" for l2
      by (rule Cons.IH)
    have l0: "fst (layoutPage options p []) = Inr (?b @ body)"
      using l [of "[]"] by simp
    show ?thesis
      by (simp only: reconstructLoop_Cons_fst l l0 sum.case 1 2 prepend_prepend append_assoc append_Nil)
  qed
qed

lemma reconstructLayout_Nil: "fst (reconstructLayout [] options) = Inr []"
  by (simp add: reconstructLayout_def)

lemma reconstructLayout_Cons:
  "fst (reconstructLayout (p # ps) options) =
     (case pageBody options p of Inl e \<Rightarrow> Inl e
      | Inr body \<Rightarrow>
          prepend ((if 1 < pageNumber p then pageBanner (pageNumber p) else []) @ body)
            (fst (reconstructLayout ps options)))"
proof (cases "pageBody options p")
  case (Inl e)
  then have "fst (layoutPage options p []) = Inl e" by (simp add: layoutPage_body)
  with Inl show ?thesis
    by (simp only: reconstructLayout_def reconstructLoop_Cons_fst sum.case)
next
  case (Inr body)
  then have l: "fst (layoutPage options p []) =
      Inr ((if 1 < pageNumber p then pageBanner (pageNumber p) else []) @ body)"
    by (simp add: layoutPage_body)
  have "fst (reconstructLoop options ps
               ((if 1 < pageNumber p then pageBanner (pageNumber p) else []) @ body) l1) =
        prepend ((if 1 < pageNumber p then pageBanner (pageNumber p) else []) @ body)
            (fst (reconstructLoop options ps [] []))" for l1
    by (rule reconstructLoop_acc)
  then show ?thesis
    by (simp only: reconstructLayout_def reconstructLoop_Cons_fst l Inr sum.case)
qed

lemma reconstructLayout_append:
  "fst (reconstructLayout (ps @ qs) options) =
     (case fst (reconstructLayout ps options) of Inl e \<Rightarrow> Inl e
      | Inr pre \<Rightarrow> prepend pre (fst (reconstructLayout qs options)))"
proof (induction ps)
  case Nil
  show ?case by (simp add: reconstructLayout_Nil prepend_Nil)
next
  case (Cons p ps)
  show ?case
  proof (cases "pageBody options p")
    case (Inl e) then show ?thesis by (simp add: reconstructLayout_Cons)
  next
    case (Inr body)
    show ?thesis
    proof (cases "fst (reconstructLayout ps options)")
      case (Inl e)
      with Inr Cons.IH show ?thesis by (simp add: reconstructLayout_Cons)
    next
      case pre: (Inr pre)
      with Inr Cons.IH show ?thesis
        by (simp add: reconstructLayout_Cons prepend_prepend)
    qed
  qed
qed

lemma reconstructLayout_split:
  assumes "fst (reconstructLayout (before @ page # after) options) = Inr out"
  shows "\<exists>pre body post.
           fst (reconstructLayout before options) = Inr pre \<and>
           pageBody options page = Inr body \<and>
           fst (reconstructLayout after options) = Inr post \<and>
           out = pre @ (if 1 < pageNumber page then pageBanner (pageNumber page) else [])
                   @ body @ post"
proof -
  from assms obtain pre where pre: "fst (reconstructLayout before options) = Inr pre"
    by (cases "fst (reconstructLayout before options)") (simp_all add: reconstructLayout_append)
  with assms have 1: "prepend pre (fst (reconstructLayout (page # after) options)) = Inr out"
    by (simp add: reconstructLayout_append)
  then obtain body where body: "pageBody options page = Inr body"
    by (cases "pageBody options page") (simp_all add: reconstructLayout_Cons)
  with 1 obtain post where post: "fst (reconstructLayout after options) = Inr post"
    by (cases "fst (reconstructLayout after options)") (simp_all add: reconstructLayout_Cons)
  from 1 body post have "out = pre @ (if 1 < pageNumber page then pageBanner (pageNumber page) else [])
                   @ body @ post"
    by (simp add: reconstructLayout_Cons)
  with pre body post show ?thesis by blast
qed

lemma lineLoop_single:
  "lineLoop options (xpos a) [a] 0 ([], Fin 0) =
     Inr (str a, js_add (roundDiv 0 (characterWidthDivisor options)) (Fin (int (length (str a)))))"
proof -
  have s: "lineStep options (xpos a) [a] 0 ([], Fin 0) =
     Inr (str a, js_add (roundDiv 0 (characterWidthDivisor options)) (Fin (int (length (str a)))))"
    by (simp add: lineStep_def roundDiv_def js_sub_def)
  show ?thesis
    by (subst lineLoop.simps, simp add: s, subst lineLoop.simps, simp)
qed

lemma pageBody_single:
  assumes "textItems page = [a]"
  shows "pageBody options page = Inr (trimEnd (str a) @ ''\<newline>'')"
proof -
  have 1: "sortedItems page = [a]" using assms by (simp add: sortedItems_def)
  have 2: "pageLines options page = [[a]]"
    by (simp add: pageLines_def yGroups_def 1 clusterItems_def clusterStep_def sortedYGroups_def)
  have 3: "leftmostX page = xpos a" using assms by (simp add: leftmostX_def)
  show ?thesis
    by (simp add: pageBody_def 1 2 3 renderLine_def lineLoop_single)
qed

section \<open>Three pages of one fragment\<close>

lemma showInt_2: "showInt 2 = ''2''"
  by (simp add: showInt_def showNat.simps digitChar_def)

lemma showInt_3: "showInt 3 = ''3''"
  by (simp add: showInt_def showNat.simps digitChar_def)

lemma replicate_80:
  "replicate 80 (CHR ''='') =
   ''================================================================================''"
  by (simp add: eval_nat_numeral)

lemma trimEnd_A: "trimEnd ''A'' = ''A''" "trimEnd ''B'' = ''B''" "trimEnd ''C'' = ''C''"
  by (simp_all add: trimEnd_def isWhiteSpace_def)

lemma three_pages:
  assumes "pageNumber p1 = 1" "pageNumber p2 = 2" "pageNumber p3 = 3"
    "textItems p1 = [a]" "textItems p2 = [b]" "textItems p3 = [c]"
  shows "fst (reconstructLayout [p1, p2, p3] options) =
     Inr (trimEnd (str a) @ ''\<newline>'' @ pageBanner 2 @ trimEnd (str b) @ ''\<newline>'' @
          pageBanner 3 @ trimEnd (str c) @ ''\<newline>'')"
  using assms
  by (simp add: reconstructLayout_Cons reconstructLayout_Nil pageBody_single)

lemma exThreePages_text:
  "fst (reconstructLayout exThreePages exOptions) =
     Inr (''A\<newline>'' @ pageBanner 2 @ ''B\<newline>'' @ pageBanner 3 @ ''C\<newline>'')"
proof -
  have "fst (reconstructLayout exThreePages exOptions) =
     Inr (trimEnd (str (mkItem ''A'' 10 700)) @ ''\<newline>'' @ pageBanner 2 @
          trimEnd (str (mkItem ''B'' 10 700)) @ ''\<newline>'' @
          pageBanner 3 @ trimEnd (str (mkItem ''C'' 10 700)) @ ''\<newline>'')"
    unfolding exThreePages_def
    by (rule three_pages) (simp_all add: mkPage_def)
  then show ?thesis by (simp add: mkItem_def trimEnd_A)
qed

lemma exThreePages_literal:
  "''A\<newline>'' @ pageBanner 2 @ ''B\<newline>'' @ pageBanner 3 @ ''C\<newline>'' =
   ''A\<newline>\<newline>\<newline>================================================================================\<newline>Page 2\<newline>================================================================================\<newline>\<newline>B\<newline>\<newline>\<newline>================================================================================\<newline>Page 3\<newline>================================================================================\<newline>\<newline>C\<newline>''"
  by (simp add: pageBanner_def showInt_2 showInt_3 replicate_80)

lemma bannerStart_literal:
  "bannerStart = ''\<newline>\<newline>================================================================================\<newline>Page ''"
  by (simp add: bannerStart_def replicate_80)

lemma exThreePages_count:
  "occurrences bannerStart
     (''A\<newline>'' @ pageBanner 2 @ ''B\<newline>'' @ pageBanner 3 @ ''C\<newline>'') = 2"
  unfolding exThreePages_literal bannerStart_literal
  by simp

lemma digitChar_props:
  assumes "d < 10"
  shows "isDigit (digitChar d)" "digitValue (digitChar d) = d"
    "(digitChar d = CHR ''0'') = (d = 0)"
proof -
  from assms have "d = 0 \<or> d = 1 \<or> d = 2 \<or> d = 3 \<or> d = 4 \<or> d = 5 \<or> d = 6 \<or> d = 7 \<or> d = 8 \<or> d = 9"
    by arith
  then show "isDigit (digitChar d)" "digitValue (digitChar d) = d"
    "(digitChar d = CHR ''0'') = (d = 0)"
    by (auto simp: isDigit_def digitValue_def digitChar_def)
qed

lemma readNat_snoc: "readNat (s @ [c]) = 10 * readNat s + digitValue c"
  by (simp add: readNat_def)

lemma showNat_nonempty: "showNat n \<noteq> []"
  by (subst showNat.simps) simp

lemma showNat_digits: "list_all isDigit (showNat n)"
proof (induction n rule: showNat.induct)
  case (1 n)
  show ?case
  proof (cases "n < 10")
    case True
    then show ?thesis by (subst showNat.simps) (simp add: digitChar_props)
  next
    case False
    have "n mod 10 < 10" by simp
    then have "isDigit (digitChar (n mod 10))" by (rule digitChar_props)
    with False 1 show ?thesis by (subst showNat.simps) simp
  qed
qed

lemma readNat_showNat: "readNat (showNat n) = n"
proof (induction n rule: showNat.induct)
  case (1 n)
  show ?case
  proof (cases "n < 10")
    case True
    then show ?thesis by (subst showNat.simps) (simp add: readNat_def digitChar_props)
  next
    case False
    have "n mod 10 < 10" by simp
    then have "digitValue (digitChar (n mod 10)) = n mod 10" by (rule digitChar_props)
    with False 1 show ?thesis by (subst showNat.simps) (simp add: readNat_snoc)
  qed
qed

lemma showNat_no_leading_zero: "0 < n \<Longrightarrow> hd (showNat n) \<noteq> CHR ''0''"
proof (induction n rule: showNat.induct)
  case (1 n)
  show ?case
  proof (cases "n < 10")
    case True
    with "1.prems" show ?thesis by (subst showNat.simps) (simp add: digitChar_props)
  next
    case False
    then have "0 < n div 10" by simp
    with False 1 have "hd (showNat (n div 10)) \<noteq> CHR ''0''" by simp
    with False show ?thesis
      by (subst showNat.simps) (simp add: showNat_nonempty)
  qed
qed

lemma showInt_decimal:
  assumes "0 \<le> n"
  shows "showInt n \<noteq> [] \<and> list_all isDigit (showInt n) \<and> readNat (showInt n) = nat n \<and>
         (0 < n \<longrightarrow> hd (showInt n) \<noteq> CHR ''0'')"
  using assms
  by (simp add: showInt_def showNat_nonempty showNat_digits readNat_showNat
      showNat_no_leading_zero)

lemma set_trimEnd: "set (trimEnd s) \<subseteq> set s"
proof -
  have "set (dropWhile isWhiteSpace (rev s)) \<subseteq> set (rev s)"
    by (auto dest: set_dropWhileD)
  then show ?thesis by (simp add: trimEnd_def)
qed

lemma trimEnd_no_newline:
  "CHR ''\<newline>'' \<notin> set s \<Longrightarrow> CHR ''\<newline>'' \<notin> set (trimEnd s)"
  using set_trimEnd [of s] by blast

lemma occ_skip:
  "CHR ''\<newline>'' \<notin> set l \<Longrightarrow>
   occurrences (CHR ''\<newline>'' # q) (l @ t) = occurrences (CHR ''\<newline>'' # q) t"
  by (induction l) auto

lemma prefix_nl_seg:
  "CHR ''\<newline>'' \<notin> set l \<Longrightarrow>
   prefix (CHR ''\<newline>'' # x) (l @ CHR ''\<newline>'' # y) \<longleftrightarrow> l = [] \<and> prefix x y"
  by (cases l) auto

lemma first_newline_unique:
  "CHR ''\<newline>'' \<notin> set l \<Longrightarrow> CHR ''\<newline>'' \<notin> set r \<Longrightarrow>
   l @ CHR ''\<newline>'' # y = r @ CHR ''\<newline>'' # z \<longleftrightarrow> l = r \<and> y = z"
proof (induction l arbitrary: r)
  case Nil
  then show ?case by (cases r) auto
next
  case (Cons c l)
  then show ?case by (cases r) auto
qed

lemma prefix_seg_seg:
  assumes "CHR ''\<newline>'' \<notin> set r" "CHR ''\<newline>'' \<notin> set l"
  shows "prefix (r @ CHR ''\<newline>'' # x) (l @ CHR ''\<newline>'' # y) \<longleftrightarrow> r = l \<and> prefix x y"
proof
  assume "prefix (r @ CHR ''\<newline>'' # x) (l @ CHR ''\<newline>'' # y)"
  then obtain z where "l @ CHR ''\<newline>'' # y = r @ CHR ''\<newline>'' # (x @ z)"
    by (auto simp: prefix_def)
  then have "l = r \<and> y = x @ z"
    using assms by (simp add: first_newline_unique)
  then show "r = l \<and> prefix x y" by auto
next
  assume "r = l \<and> prefix x y"
  then show "prefix (r @ CHR ''\<newline>'' # x) (l @ CHR ''\<newline>'' # y)" by simp
qed

lemma prefix_seg_nl:
  assumes "CHR ''\<newline>'' \<notin> set r"
  shows "prefix (r @ CHR ''\<newline>'' # x) (CHR ''\<newline>'' # y) \<longleftrightarrow> r = [] \<and> prefix x y"
  using prefix_seg_seg [OF assms, of "[]" x y] by simp

lemma prefix_nl_other:
  "CHR ''\<newline>'' \<notin> set l \<Longrightarrow> l \<noteq> [] \<Longrightarrow> prefix (CHR ''\<newline>'' # x) (l @ y) = False"
  by (cases l) auto

lemma rule_no_newline: "CHR ''\<newline>'' \<notin> set (replicate 80 (CHR ''=''))"
  by simp

lemma rule_nonempty: "replicate 80 (CHR ''='') \<noteq> []"
  by simp

lemmas occ_rules = occ_skip prefix_nl_seg prefix_seg_seg prefix_seg_nl prefix_nl_other
  rule_no_newline rule_nonempty

lemma three_lines_count:
  assumes "CHR ''\<newline>'' \<notin> set la" "CHR ''\<newline>'' \<notin> set lb" "CHR ''\<newline>'' \<notin> set lc"
  shows "occurrences bannerStart
           (la @ ''\<newline>'' @ pageBanner 2 @ lb @ ''\<newline>'' @ pageBanner 3 @ lc @ ''\<newline>'') = 2"
  using assms
  by (simp add: bannerStart_def pageBanner_def showInt_2 showInt_3 occ_rules del: prefix_snoc)

lemma three_lines_count_2:
  assumes "CHR ''\<newline>'' \<notin> set la" "CHR ''\<newline>'' \<notin> set lb" "CHR ''\<newline>'' \<notin> set lc"
  shows "occurrences (pageBanner 2)
           (la @ ''\<newline>'' @ pageBanner 2 @ lb @ ''\<newline>'' @ pageBanner 3 @ lc @ ''\<newline>'') = 1"
  using assms
  by (simp add: pageBanner_def showInt_2 showInt_3 occ_rules del: prefix_snoc)

lemma three_lines_count_3:
  assumes "CHR ''\<newline>'' \<notin> set la" "CHR ''\<newline>'' \<notin> set lb" "CHR ''\<newline>'' \<notin> set lc"
  shows "occurrences (pageBanner 3)
           (la @ ''\<newline>'' @ pageBanner 2 @ lb @ ''\<newline>'' @ pageBanner 3 @ lc @ ''\<newline>'') = 1"
  using assms
  by (simp add: pageBanner_def showInt_2 showInt_3 occ_rules del: prefix_snoc)

lemma pageBanner_2_literal:
  "pageBanner 2 = ''\<newline>\<newline>================================================================================\<newline>Page 2\<newline>================================================================================\<newline>\<newline>''"
  by (simp add: pageBanner_def showInt_2 replicate_80)

lemma pageBanner_3_literal:
  "pageBanner 3 = ''\<newline>\<newline>================================================================================\<newline>Page 3\<newline>================================================================================\<newline>\<newline>''"
  by (simp add: pageBanner_def showInt_3 replicate_80)

lemma pageBanner_12_literal:
  "pageBanner 12 = ''\<newline>\<newline>================================================================================\<newline>Page 12\<newline>================================================================================\<newline>\<newline>''"
  by (simp add: pageBanner_def showInt_def showNat.simps digitChar_def replicate_80)

lemma bannerStart_prefix: "prefix bannerStart (pageBanner n)"
  by (simp add: bannerStart_def pageBanner_def)

lemma trimEnd_fake: "trimEnd (bannerStart @ ''9'') = bannerStart @ ''9''"
  by (simp add: trimEnd_def isWhiteSpace_def)

lemma exBannerPages_text:
  "fst (reconstructLayout exBannerPages exOptions) =
     Inr (bannerStart @ ''9\<newline>'' @ pageBanner 2 @ ''B\<newline>'' @ pageBanner 3 @ ''C\<newline>'')"
proof -
  have "fst (reconstructLayout exBannerPages exOptions) =
     Inr (trimEnd (str (mkItem (bannerStart @ ''9'') 10 700)) @ ''\<newline>'' @ pageBanner 2 @
          trimEnd (str (mkItem ''B'' 10 700)) @ ''\<newline>'' @
          pageBanner 3 @ trimEnd (str (mkItem ''C'' 10 700)) @ ''\<newline>'')"
    unfolding exBannerPages_def
    by (rule three_pages) (simp_all add: mkPage_def)
  then show ?thesis by (simp add: mkItem_def trimEnd_A trimEnd_fake)
qed

lemma exBannerPages_count:
  "occurrences bannerStart
     (bannerStart @ ''9\<newline>'' @ pageBanner 2 @ ''B\<newline>'' @ pageBanner 3 @ ''C\<newline>'') = 3"
  unfolding pageBanner_2_literal pageBanner_3_literal bannerStart_literal
  by simp

lemma exBannerPages_shape:
  "map pageNumber exBannerPages = [1, 2, 3]"
  "map textItems exBannerPages =
     [[mkItem (bannerStart @ ''9'') 10 700], [mkItem ''B'' 10 700], [mkItem ''C'' 10 700]]"
  by (simp_all add: exBannerPages_def mkPage_def)

lemma three_pages_counts:
  assumes "pageNumber p1 = 1" "pageNumber p2 = 2" "pageNumber p3 = 3"
    "textItems p1 = [a]" "textItems p2 = [b]" "textItems p3 = [c]"
  shows "\<exists>out. fst (reconstructLayout [p1, p2, p3] options) = Inr out \<and>
           out = trimEnd (str a) @ ''\<newline>'' @ pageBanner 2 @ trimEnd (str b) @ ''\<newline>'' @
                 pageBanner 3 @ trimEnd (str c) @ ''\<newline>'' \<and>
           (CHR ''\<newline>'' \<notin> set (str a) \<and> CHR ''\<newline>'' \<notin> set (str b) \<and>
            CHR ''\<newline>'' \<notin> set (str c) \<longrightarrow>
              occurrences bannerStart out = 2 \<and> occurrences (pageBanner 2) out = 1 \<and>
              occurrences (pageBanner 3) out = 1)"
proof -
  let ?out = "trimEnd (str a) @ ''\<newline>'' @ pageBanner 2 @ trimEnd (str b) @ ''\<newline>'' @
                 pageBanner 3 @ trimEnd (str c) @ ''\<newline>''"
  have 1: "fst (reconstructLayout [p1, p2, p3] options) = Inr ?out"
    using assms by (rule three_pages)
  have 2: "occurrences bannerStart ?out = 2 \<and> occurrences (pageBanner 2) ?out = 1 \<and>
           occurrences (pageBanner 3) ?out = 1"
    if "CHR ''\<newline>'' \<notin> set (str a) \<and> CHR ''\<newline>'' \<notin> set (str b) \<and>
        CHR ''\<newline>'' \<notin> set (str c)"
  proof -
    from that have n: "CHR ''\<newline>'' \<notin> set (trimEnd (str a))"
      "CHR ''\<newline>'' \<notin> set (trimEnd (str b))" "CHR ''\<newline>'' \<notin> set (trimEnd (str c))"
      by (simp_all add: trimEnd_no_newline)
    show ?thesis
      using three_lines_count [OF n] three_lines_count_2 [OF n] three_lines_count_3 [OF n]
      by blast
  qed
  from 1 2 show ?thesis by blast
qed

section \<open>The flat text\<close>

lemma itemsLoop_eq:
  "itemsLoop cs items acc =
     (items @ map toTextItem (textEntries cs), acc @ concat (map flatPiece (textEntries cs)))"
proof (induction cs arbitrary: items acc)
  case Nil then show ?case by simp
next
  case (Cons c cs)
  show ?case
  proof (cases c)
    case MarkedContent
    with Cons.IH show ?thesis by simp
  next
    case (TextContent item)
    obtain t0 t1 t2 t3 t4 t5 where t: "transform item = (t0, t1, t2, t3, t4, t5)"
      by (cases "transform item") auto
    show ?thesis
      using TextContent t
      by (simp add: Cons.IH toTextItem_def flatPiece_def Let_def)
  qed
qed

lemma pagesLoop_text:
  "fst (pagesLoop opts ps n acc layouts k) =
     acc @ concat (map (\<lambda>page. concat (map flatPiece (textEntries (textContent page)))) ps)"
  by (induction ps arbitrary: n acc layouts k) (simp_all add: itemsLoop_eq)

lemma concat_map_concat:
  "concat (map (\<lambda>p. concat (map f (g p))) ps) = concat (map f (concat (map g ps)))"
  by (induction ps) simp_all

lemma concat_flatPiece_doc:
  "concat (map (\<lambda>page. concat (map flatPiece (textEntries (textContent page)))) (docPages pdf))
     = concat (map flatPiece (docFragments pdf))"
  unfolding docFragments_def by (rule concat_map_concat)

lemma flat_text_of_result:
  assumes "fst (extractTextFromPdf (Inr pdf) options) = Inr r"
  shows "flatTextOf r = concat (map flatPiece (docFragments pdf))"
proof -
  obtain t ls k where p: "pagesLoop (mergeOptions options) (docPages pdf) 1 [] [] 0 = (t, ls, k)"
    by (cases "pagesLoop (mergeOptions options) (docPages pdf) 1 [] [] 0") auto
  have t: "t = concat (map flatPiece (docFragments pdf))"
    using pagesLoop_text [of "mergeOptions options" "docPages pdf" 1 "[]" "[]" 0] p
    by (simp add: concat_flatPiece_doc)
  show ?thesis
  proof (cases "includeLayout (mergeOptions options)")
    case False
    with assms p t show ?thesis by (auto simp: extractTextFromPdf_def)
  next
    case True
    obtain res lg where rl: "reconstructLayout ls (mergeOptions options) = (res, lg)"
      by (cases "reconstructLayout ls (mergeOptions options)") auto
    show ?thesis
    proof (cases res)
      case (Inl e)
      with assms p True rl show ?thesis by (simp add: extractTextFromPdf_def)
    next
      case (Inr lt)
      with assms p True rl t show ?thesis by (auto simp: extractTextFromPdf_def)
    qed
  qed
qed

lemma flat_text_only:
  assumes "\<not> includeLayout (mergeOptions options)"
  shows "extractTextFromPdf (Inr pdf) options =
           (Inr (FlatText (concat (map flatPiece (docFragments pdf)))), [])"
proof -
  obtain t ls k where p: "pagesLoop (mergeOptions options) (docPages pdf) 1 [] [] 0 = (t, ls, k)"
    by (cases "pagesLoop (mergeOptions options) (docPages pdf) 1 [] [] 0") auto
  have t: "t = concat (map flatPiece (docFragments pdf))"
    using pagesLoop_text [of "mergeOptions options" "docPages pdf" 1 "[]" "[]" 0] p
    by (simp add: concat_flatPiece_doc)
  with assms p show ?thesis by (simp add: extractTextFromPdf_def)
qed

lemma flatPiece_no_eol:
  assumes "list_all (\<lambda>item. \<not> hasEOL item) items"
  shows "concat (map flatPiece items) = concat (map str items)"
  using assms by (induction items) (simp_all add: flatPiece_def)

section \<open>The debug flag, and the results with a non-zero divisor\<close>

lemma lineStep_cong:
  assumes "characterWidthDivisor o1 = characterWidthDivisor o2"
  shows "lineStep o1 leftmost line i st = lineStep o2 leftmost line i st"
  unfolding lineStep_def assms by (rule refl)

lemma lineLoop_cong:
  assumes "characterWidthDivisor o1 = characterWidthDivisor o2"
  shows "lineLoop o1 leftmost line i st = lineLoop o2 leftmost line i st"
proof (induction "length line - i" arbitrary: i st)
  case 0
  then show ?case by (simp add: lineLoop.simps)
next
  case (Suc n)
  then have i: "i < length line" by simp
  have n: "n = length line - Suc i" using Suc.hyps(2) by simp
  have IH: "lineLoop o1 leftmost line (Suc i) st' = lineLoop o2 leftmost line (Suc i) st'" for st'
    by (rule Suc.hyps(1) [OF n])
  have s: "lineStep o1 leftmost line i st = lineStep o2 leftmost line i st"
    using assms by (rule lineStep_cong)
  show ?case
    by (simp add: lineLoop.simps [of o1 leftmost line i] lineLoop.simps [of o2 leftmost line i]
        s IH split: sum.splits)
qed

lemma renderLine_cong:
  "characterWidthDivisor o1 = characterWidthDivisor o2 \<Longrightarrow>
   renderLine o1 leftmost line = renderLine o2 leftmost line"
  by (simp add: renderLine_def lineLoop_cong [of o1 o2])

lemma renderLines_cong:
  assumes "characterWidthDivisor o1 = characterWidthDivisor o2"
  shows "renderLines o1 leftmost rows acc = renderLines o2 leftmost rows acc"
  by (induction rows arbitrary: acc) (simp_all add: renderLine_cong [OF assms] split: sum.splits)

lemma pageLines_cong:
  "yTolerance o1 = yTolerance o2 \<Longrightarrow> pageLines o1 page = pageLines o2 page"
  by (simp add: pageLines_def yGroups_def)

lemma pageBody_cong:
  assumes "yTolerance o1 = yTolerance o2" "characterWidthDivisor o1 = characterWidthDivisor o2"
  shows "pageBody o1 page = pageBody o2 page"
  by (simp add: pageBody_def pageLines_cong [OF assms(1)] renderLines_cong [OF assms(2)])

lemma reconstructLayout_cong:
  assumes "yTolerance o1 = yTolerance o2" "characterWidthDivisor o1 = characterWidthDivisor o2"
  shows "fst (reconstructLayout ps o1) = fst (reconstructLayout ps o2)"
  by (induction ps)
     (simp_all add: reconstructLayout_Nil reconstructLayout_Cons pageBody_cong [OF assms]
        split: sum.splits)

lemma layoutPage_quiet: "\<not> enableDebug options \<Longrightarrow> snd (layoutPage options page acc) = []"
  by (simp add: layoutPage_def pageDebug_def groupDebug_def Let_def)

lemma reconstructLoop_quiet:
  assumes "\<not> enableDebug options"
  shows "snd (reconstructLoop options ps acc lg) = lg"
proof (induction ps arbitrary: acc lg)
  case Nil then show ?case by simp
next
  case (Cons p ps)
  obtain r msgs where l: "layoutPage options p acc = (r, msgs)"
    by (cases "layoutPage options p acc") auto
  have "msgs = []" using layoutPage_quiet [OF assms, of p acc] l by simp
  with l Cons.IH show ?case by (cases r) simp_all
qed

lemma reconstructLayout_quiet:
  "\<not> enableDebug options \<Longrightarrow> snd (reconstructLayout ps options) = []"
  by (simp add: reconstructLayout_def reconstructLoop_quiet)

lemma pagesLoop_cong:
  "includeLayout o1 = includeLayout o2 \<Longrightarrow>
   pagesLoop o1 ps n acc layouts k = pagesLoop o2 ps n acc layouts k"
  by (induction ps arbitrary: n acc layouts k) (simp_all split: prod.splits)

lemma extract_debug_neutral:
  assumes "includeLayout_opt o1 = includeLayout_opt o2" "yTolerance_opt o1 = yTolerance_opt o2"
    "characterWidthDivisor_opt o1 = characterWidthDivisor_opt o2"
  shows "fst (extractTextFromPdf source o1) = fst (extractTextFromPdf source o2)"
proof (cases source)
  case (Inl msg)
  then show ?thesis by (simp add: extractTextFromPdf_def)
next
  case (Inr pdf)
  have il: "includeLayout (mergeOptions o1) = includeLayout (mergeOptions o2)"
    and yt: "yTolerance (mergeOptions o1) = yTolerance (mergeOptions o2)"
    and cw: "characterWidthDivisor (mergeOptions o1) = characterWidthDivisor (mergeOptions o2)"
    using assms by (simp_all add: mergeOptions_def)
  have pl: "pagesLoop (mergeOptions o1) (docPages pdf) 1 [] [] 0 =
            pagesLoop (mergeOptions o2) (docPages pdf) 1 [] [] 0"
    using il by (rule pagesLoop_cong)
  obtain t ls k where p: "pagesLoop (mergeOptions o2) (docPages pdf) 1 [] [] 0 = (t, ls, k)"
    by (cases "pagesLoop (mergeOptions o2) (docPages pdf) 1 [] [] 0") auto
  have rl: "fst (reconstructLayout ls (mergeOptions o1)) = fst (reconstructLayout ls (mergeOptions o2))"
    using yt cw by (rule reconstructLayout_cong)
  obtain r1 l1 where 1: "reconstructLayout ls (mergeOptions o1) = (r1, l1)"
    by (cases "reconstructLayout ls (mergeOptions o1)") auto
  obtain r2 l2 where 2: "reconstructLayout ls (mergeOptions o2) = (r2, l2)"
    by (cases "reconstructLayout ls (mergeOptions o2)") auto
  have r: "r1 = r2" using rl 1 2 by simp
  show ?thesis
    using Inr pl p il 1 2 r
    by (cases r2) (simp_all add: extractTextFromPdf_def Let_def)
qed

lemma extract_quiet:
  assumes "\<not> enableDebug (mergeOptions options)"
  shows "snd (extractTextFromPdf source options) = []"
proof (cases source)
  case (Inl msg)
  then show ?thesis by (simp add: extractTextFromPdf_def)
next
  case (Inr pdf)
  obtain t ls k where p: "pagesLoop (mergeOptions options) (docPages pdf) 1 [] [] 0 = (t, ls, k)"
    by (cases "pagesLoop (mergeOptions options) (docPages pdf) 1 [] [] 0") auto
  obtain r lg where 1: "reconstructLayout ls (mergeOptions options) = (r, lg)"
    by (cases "reconstructLayout ls (mergeOptions options)") auto
  have "lg = []" using reconstructLayout_quiet [OF assms, of ls] 1 by simp
  with Inr p 1 show ?thesis
    by (cases r) (simp_all add: extractTextFromPdf_def Let_def)
qed

lemma pageBody_total:
  assumes "characterWidthDivisor options \<noteq> 0"
  shows "\<exists>body. pageBody options page = Inr body"
  by (simp add: pageBody_def renderLines_fin [OF assms])

lemma reconstructLayout_total:
  assumes "characterWidthDivisor options \<noteq> 0"
  shows "\<exists>out. fst (reconstructLayout ps options) = Inr out"
proof (induction ps)
  case Nil then show ?case by (simp add: reconstructLayout_Nil)
next
  case (Cons p ps)
  from pageBody_total [OF assms, of p] obtain body where "pageBody options p = Inr body" ..
  moreover from Cons obtain out where "fst (reconstructLayout ps options) = Inr out" ..
  ultimately show ?case by (simp add: reconstructLayout_Cons)
qed

lemma extract_layout_total:
  assumes "includeLayout (mergeOptions options)"
    "characterWidthDivisor (mergeOptions options) \<noteq> 0"
  shows "\<exists>d. fst (extractTextFromPdf (Inr pdf) options) = Inr (LayoutResult d) \<and>
             pageLayouts d =
               fst (snd (pagesLoop (mergeOptions options) (docPages pdf) 1 [] [] 0)) \<and>
             fst (reconstructLayout (pageLayouts d) (mergeOptions options)) = Inr (layoutText d)"
proof -
  obtain t ls k where p: "pagesLoop (mergeOptions options) (docPages pdf) 1 [] [] 0 = (t, ls, k)"
    by (cases "pagesLoop (mergeOptions options) (docPages pdf) 1 [] [] 0") auto
  from reconstructLayout_total [OF assms(2), of ls]
  obtain out where o: "fst (reconstructLayout ls (mergeOptions options)) = Inr out" ..
  then obtain lg where 1: "reconstructLayout ls (mergeOptions options) = (Inr out, lg)"
    by (cases "reconstructLayout ls (mergeOptions options)") auto
  show ?thesis using assms(1) p 1 o
    by (simp add: extractTextFromPdf_def Let_def)
qed

section \<open>The initial sort\<close>

lemma itemCompare_key:
  assumes "ypos a = ypos b \<or> 10 \<le> \<bar>ypos a - ypos b\<bar>"
  shows "itemCompare a b \<le> 0 \<longleftrightarrow> (- ypos a, xpos a) \<le> (- ypos b, xpos b)"
  using assms by (auto simp: itemCompare_def Let_def)

lemma insert_cmp_insort:
  assumes "\<forall>b\<in>set bs. ypos a = ypos b \<or> 10 \<le> \<bar>ypos a - ypos b\<bar>"
  shows "insert_cmp itemCompare a bs = insort_key (\<lambda>item. (- ypos item, xpos item)) a bs"
  using assms
proof (induction bs)
  case Nil then show ?case by simp
next
  case (Cons b bs)
  have "itemCompare a b \<le> 0 \<longleftrightarrow> (- ypos a, xpos a) \<le> (- ypos b, xpos b)"
    using Cons.prems by (intro itemCompare_key) simp
  moreover have "insert_cmp itemCompare a bs = insort_key (\<lambda>item. (- ypos item, xpos item)) a bs"
    using Cons by simp
  ultimately show ?case by simp
qed

lemma sort_cmp_spec:
  assumes "\<forall>a\<in>set xs. \<forall>b\<in>set xs. ypos a = ypos b \<or> 10 \<le> \<bar>ypos a - ypos b\<bar>"
  shows "sort_cmp itemCompare xs = spec_initialSort xs"
  using assms
proof (induction xs)
  case Nil then show ?case by (simp add: spec_initialSort_def)
next
  case (Cons x xs)
  have IH: "sort_cmp itemCompare xs = spec_initialSort xs" using Cons by simp
  have "\<forall>b\<in>set (sort_cmp itemCompare xs). ypos x = ypos b \<or> 10 \<le> \<bar>ypos x - ypos b\<bar>"
    using Cons.prems by (simp add: set_sort_cmp)
  then have "insert_cmp itemCompare x (sort_cmp itemCompare xs) =
        insort_key (\<lambda>item. (- ypos item, xpos item)) x (sort_cmp itemCompare xs)"
    by (rule insert_cmp_insort)
  then show ?case using IH by (simp add: spec_initialSort_def)
qed

lemma sorted_pair_band:
  assumes "textItems page = [a, b]" "\<bar>ypos a - ypos b\<bar> < 10"
  shows "sortedItems page = (if xpos a \<le> xpos b then [a, b] else [b, a])"
  using assms by (simp add: sortedItems_def itemCompare_def Let_def abs_minus_commute)

lemma exBand_sorted: "sortedItems exBand = [mkItem ''a'' 0 100, mkItem ''b'' 50 105]"
  by (simp add: sortedItems_def exBand_def mkPage_def mkItem_def itemCompare_def)

lemma exBand_spec:
  "spec_initialSort (textItems exBand) = [mkItem ''b'' 50 105, mkItem ''a'' 0 100]"
  by (simp add: spec_initialSort_def exBand_def mkPage_def mkItem_def)

lemma exApart_sorted:
  "sortedItems exApart = [mkItem ''a'' 0 100, mkItem ''b'' 40 100, mkItem ''c'' 0 50]"
  by (simp add: sortedItems_def exApart_def mkPage_def mkItem_def itemCompare_def)

section \<open>Claims about the row clustering\<close>

lemma cluster_two:
  assumes "0 < tol"
  shows "clusterItems tol [u, v] =
     (if \<bar>ypos v - ypos u\<bar> < tol then [(ypos u, [u, v])] else [(ypos u, [u]), (ypos v, [v])])"
  using assms by (auto simp: clusterItems_def clusterStep_def)

lemma lines_two:
  assumes "0 < yTolerance options" "sortedItems page = [u, v]"
  shows "if \<bar>ypos v - ypos u\<bar> < yTolerance options
         then length (pageLines options page) = 1 \<and> set (hd (pageLines options page)) = {u, v}
         else length (pageLines options page) = 2 \<and> set (pageLines options page) = {[u], [v]}"
  using assms
  by (auto simp: pageLines_def yGroups_def cluster_two sortedYGroups_def set_sort_cmp)

lemma lines_pair:
  assumes "0 < yTolerance options" "textItems page = [a, b]" "ypos b = ypos a + d"
  shows "if \<bar>d\<bar> < yTolerance options
         then length (pageLines options page) = 1 \<and> set (hd (pageLines options page)) = {a, b}
         else length (pageLines options page) = 2 \<and> set (pageLines options page) = {[a], [b]}"
proof (cases "itemCompare a b \<le> 0")
  case True
  then have s: "sortedItems page = [a, b]" using assms(2) by (simp add: sortedItems_def)
  have "\<bar>ypos b - ypos a\<bar> = \<bar>d\<bar>" using assms(3) by simp
  with lines_two [OF assms(1) s] show ?thesis by simp
next
  case False
  then have s: "sortedItems page = [b, a]" using assms(2) by (simp add: sortedItems_def)
  have "\<bar>ypos a - ypos b\<bar> = \<bar>d\<bar>" using assms(3) by simp
  with lines_two [OF assms(1) s] show ?thesis by (simp add: insert_commute)
qed

lemma exRows_groups:
  "yGroups exOptions exRows =
     [(100, [mkItem ''a'' 0 100, mkItem ''b'' 40 101]), (50, [mkItem ''c'' 0 50])]"
  by (simp add: yGroups_def exOptions_def exRows_def mkOptions_def mkPage_def mkItem_def
      sortedItems_def itemCompare_def clusterItems_def clusterStep_def)

text \<open>
  C1. With a positive \<open>yTolerance\<close>, on every page: every group of the first pass is
  anchored at the \<open>y\<close> of its first item and holds only items whose \<open>y\<close> is strictly
  within the tolerance of the anchor. Processing one more item adds it to the first group,
  in creation order, whose anchor is strictly within the tolerance of the item's \<open>y\<close>, and
  opens a new group, anchored at the item's \<open>y\<close> and last in order, when there is none.
  The groups made from a part of the items stay, with their anchors, at their places in
  the groups of the page, their items only added to.
\<close>

theorem C1_row_clustering:
  assumes tol: "0 < yTolerance options"
  shows "(\<forall>g\<in>set (yGroups options page).
            snd g \<noteq> [] \<and> fst g = ypos (hd (snd g)) \<and>
            (\<forall>item\<in>set (snd g). \<bar>ypos item - fst g\<bar> < yTolerance options)) \<and>
         (\<forall>pre item gs. gs = clusterItems (yTolerance options) pre \<longrightarrow>
            ((\<exists>i<length gs. \<bar>ypos item - fst (gs ! i)\<bar> < yTolerance options) \<longrightarrow>
               (\<exists>i<length gs. \<bar>ypos item - fst (gs ! i)\<bar> < yTolerance options \<and>
                  (\<forall>j<i. \<not> \<bar>ypos item - fst (gs ! j)\<bar> < yTolerance options) \<and>
                  clusterItems (yTolerance options) (pre @ [item]) =
                    gs[i := (fst (gs ! i), snd (gs ! i) @ [item])])) \<and>
            ((\<forall>i<length gs. \<not> \<bar>ypos item - fst (gs ! i)\<bar> < yTolerance options) \<longrightarrow>
               clusterItems (yTolerance options) (pre @ [item]) = gs @ [(ypos item, [item])])) \<and>
         (\<forall>pre post. sortedItems page = pre @ post \<longrightarrow>
            length (clusterItems (yTolerance options) pre) \<le> length (yGroups options page) \<and>
            (\<forall>i<length (clusterItems (yTolerance options) pre).
               fst (yGroups options page ! i) = fst (clusterItems (yTolerance options) pre ! i) \<and>
               prefix (snd (clusterItems (yTolerance options) pre ! i))
                      (snd (yGroups options page ! i))))"
proof (intro conjI)
  have "anchored (yTolerance options) (yGroups options page)"
    unfolding yGroups_def using tol by (rule anchored_clusterItems)
  then show "\<forall>g\<in>set (yGroups options page).
            snd g \<noteq> [] \<and> fst g = ypos (hd (snd g)) \<and>
            (\<forall>item\<in>set (snd g). \<bar>ypos item - fst g\<bar> < yTolerance options)"
    by (auto simp: anchored_def okgroup_def list_all_iff)
next
  show "\<forall>pre item gs. gs = clusterItems (yTolerance options) pre \<longrightarrow>
            ((\<exists>i<length gs. \<bar>ypos item - fst (gs ! i)\<bar> < yTolerance options) \<longrightarrow>
               (\<exists>i<length gs. \<bar>ypos item - fst (gs ! i)\<bar> < yTolerance options \<and>
                  (\<forall>j<i. \<not> \<bar>ypos item - fst (gs ! j)\<bar> < yTolerance options) \<and>
                  clusterItems (yTolerance options) (pre @ [item]) =
                    gs[i := (fst (gs ! i), snd (gs ! i) @ [item])])) \<and>
            ((\<forall>i<length gs. \<not> \<bar>ypos item - fst (gs ! i)\<bar> < yTolerance options) \<longrightarrow>
               clusterItems (yTolerance options) (pre @ [item]) = gs @ [(ypos item, [item])])"
    using step_match step_nomatch [OF tol] by (simp add: clusterItems_snoc)
next
  show "\<forall>pre post. sortedItems page = pre @ post \<longrightarrow>
            length (clusterItems (yTolerance options) pre) \<le> length (yGroups options page) \<and>
            (\<forall>i<length (clusterItems (yTolerance options) pre).
               fst (yGroups options page ! i) = fst (clusterItems (yTolerance options) pre ! i) \<and>
               prefix (snd (clusterItems (yTolerance options) pre ! i))
                      (snd (yGroups options page ! i)))"
  proof (intro allI impI)
    fix pre post assume "sortedItems page = pre @ post"
    then have "yGroups options page = clusterItems (yTolerance options) (pre @ post)"
      by (simp add: yGroups_def)
    moreover have "extends (clusterItems (yTolerance options) pre)
                     (clusterItems (yTolerance options) (pre @ post))"
      using tol by (rule extends_clusterItems)
    ultimately show "length (clusterItems (yTolerance options) pre) \<le> length (yGroups options page) \<and>
            (\<forall>i<length (clusterItems (yTolerance options) pre).
               fst (yGroups options page ! i) = fst (clusterItems (yTolerance options) pre ! i) \<and>
               prefix (snd (clusterItems (yTolerance options) pre ! i))
                      (snd (yGroups options page ! i)))"
      by (simp add: extends_def)
  qed
qed

theorem C1_row_clustering_witness:
  "0 < yTolerance exOptions \<and>
   yGroups exOptions exRows =
     [(100, [mkItem ''a'' 0 100, mkItem ''b'' 40 101]), (50, [mkItem ''c'' 0 50])] \<and>
   list_all (\<lambda>g. snd g \<noteq> [] \<and> fst g = ypos (hd (snd g)) \<and>
                 list_all (\<lambda>item. \<bar>ypos item - fst g\<bar> < yTolerance exOptions) (snd g))
     (yGroups exOptions exRows)"
proof -
  have h: "0 < yTolerance exOptions" by (simp add: exOptions_def mkOptions_def)
  from C1_row_clustering [OF h, of exRows]
  have "\<forall>g\<in>set (yGroups exOptions exRows).
            snd g \<noteq> [] \<and> fst g = ypos (hd (snd g)) \<and>
            (\<forall>item\<in>set (snd g). \<bar>ypos item - fst g\<bar> < yTolerance exOptions)"
    by blast
  then have "list_all (\<lambda>g. snd g \<noteq> [] \<and> fst g = ypos (hd (snd g)) \<and>
                 list_all (\<lambda>item. \<bar>ypos item - fst g\<bar> < yTolerance exOptions) (snd g))
     (yGroups exOptions exRows)"
    unfolding list_all_iff .
  with h exRows_groups show ?thesis by simp
qed

text \<open>
  C2. On a page of exactly two fragments, at \<open>y\<close> and at \<open>y + d\<close>, with a positive
  \<open>yTolerance\<close>: some row holds both fragments if and only if \<open>|d| < yTolerance\<close>. Then
  the page has one row, of the two fragments; otherwise, and so when \<open>|d|\<close> equals the
  tolerance, it has two rows, one of each fragment.
\<close>

theorem C2_row_tolerance_boundary:
  assumes "0 < yTolerance options" "textItems page = [a, b]" "ypos b = ypos a + d"
  shows "((\<exists>line\<in>set (pageLines options page). a \<in> set line \<and> b \<in> set line)
            \<longleftrightarrow> \<bar>d\<bar> < yTolerance options) \<and>
         (if \<bar>d\<bar> < yTolerance options
          then length (pageLines options page) = 1 \<and> set (hd (pageLines options page)) = {a, b}
          else length (pageLines options page) = 2 \<and> set (pageLines options page) = {[a], [b]})"
proof (cases "\<bar>d\<bar> < yTolerance options")
  case True
  with lines_pair [OF assms] have l: "length (pageLines options page) = 1"
    and s: "set (hd (pageLines options page)) = {a, b}" by simp_all
  from l obtain line where "pageLines options page = [line]"
    by (cases "pageLines options page") auto
  with s True l show ?thesis by simp
next
  case False
  with lines_pair [OF assms] have l: "length (pageLines options page) = 2"
    and s: "set (pageLines options page) = {[a], [b]}" by simp_all
  have "a \<noteq> b" using False assms(1,3) by auto
  with s False l show ?thesis by auto
qed

theorem C2_row_tolerance_boundary_witness:
  "0 < yTolerance exOptions \<and> textItems exNear = [mkItem ''a'' 0 100, mkItem ''b'' 30 101] \<and>
   ypos (mkItem ''b'' 30 101) = ypos (mkItem ''a'' 0 100) + 1 \<and>
   length (pageLines exOptions exNear) = 1 \<and>
   textItems exBoundary = [mkItem ''a'' 0 100, mkItem ''b'' 30 102] \<and>
   ypos (mkItem ''b'' 30 102) = ypos (mkItem ''a'' 0 100) + yTolerance exOptions \<and>
   length (pageLines exOptions exBoundary) = 2"
proof -
  have h: "0 < yTolerance exOptions" by (simp add: exOptions_def mkOptions_def)
  have n1: "textItems exNear = [mkItem ''a'' 0 100, mkItem ''b'' 30 101]"
    by (simp add: exNear_def mkPage_def)
  have n2: "ypos (mkItem ''b'' 30 101) = ypos (mkItem ''a'' 0 100) + 1"
    by (simp add: mkItem_def)
  have b1: "textItems exBoundary = [mkItem ''a'' 0 100, mkItem ''b'' 30 102]"
    by (simp add: exBoundary_def mkPage_def)
  have b2: "ypos (mkItem ''b'' 30 102) = ypos (mkItem ''a'' 0 100) + yTolerance exOptions"
    by (simp add: mkItem_def exOptions_def mkOptions_def)
  have t: "yTolerance exOptions = 2" by (simp add: exOptions_def mkOptions_def)
  from C2_row_tolerance_boundary [OF h n1 n2]
  have 1: "length (pageLines exOptions exNear) = 1" by (simp add: t)
  from C2_row_tolerance_boundary [OF h b1 b2]
  have 2: "length (pageLines exOptions exBoundary) = 2" by (simp add: t)
  from h n1 n2 b1 b2 1 2 show ?thesis by blast
qed

text \<open>
  C10. On every page, after the first pass, the anchors of two different groups are
  different numbers and at least \<open>yTolerance\<close> apart.
\<close>

theorem C10_anchors_apart:
  "\<forall>i j. i < j \<and> j < length (yGroups options page) \<longrightarrow>
     fst (yGroups options page ! i) \<noteq> fst (yGroups options page ! j) \<and>
     yTolerance options \<le> \<bar>fst (yGroups options page ! i) - fst (yGroups options page ! j)\<bar>"
  using separated_nth [OF separated_clusterItems]
  by (simp add: yGroups_def)

theorem C10_anchors_apart_witness:
  "(0::nat) < 1 \<and> 1 < length (yGroups exOptions exRows) \<and>
   fst (yGroups exOptions exRows ! 0) = 100 \<and> fst (yGroups exOptions exRows ! 1) = 50 \<and>
   yTolerance exOptions \<le> \<bar>fst (yGroups exOptions exRows ! 0) - fst (yGroups exOptions exRows ! 1)\<bar>"
proof -
  have l: "(0::nat) < 1 \<and> 1 < length (yGroups exOptions exRows)"
    by (simp add: exRows_groups)
  with C10_anchors_apart [of exOptions exRows]
  have "yTolerance exOptions \<le>
          \<bar>fst (yGroups exOptions exRows ! 0) - fst (yGroups exOptions exRows ! 1)\<bar>"
    by blast
  with l show ?thesis by (simp add: exRows_groups)
qed

section \<open>Claims about the line assembly and the document\<close>

lemma name_age:
  assumes items: "textItems page = [a, b]"
    and a: "str a = ''Name''" "xpos a = 0" "ypos a = 100"
    and b: "str b = ''Age''" "xpos b = 40" "ypos b = 100"
    and o: "yTolerance options = 2" "characterWidthDivisor options = 4"
  shows "pageLines options page = [[a, b]]"
    and "leftmostX page = 0"
    and "lineStep options (leftmostX page) [a, b] 0 ([], Fin 0) = Inr (''Name'', Fin 4)"
    and "roundDiv (xpos b - leftmostX page) (characterWidthDivisor options) = Fin 10"
    and "lineStep options (leftmostX page) [a, b] 1 (''Name'', Fin 4) =
           Inr (''Name      Age'', Fin 13)"
    and "pageBody options page = Inr ''Name      Age\<newline>''"
proof -
  have s: "sortedItems page = [a, b]"
    using items a b by (simp add: sortedItems_def itemCompare_def)
  have g: "yGroups options page = [(100, [a, b])]"
    using a b o by (simp add: yGroups_def s clusterItems_def clusterStep_def)
  show l: "pageLines options page = [[a, b]]"
    using a b by (simp add: pageLines_def g sortedYGroups_def)
  show x: "leftmostX page = 0" using items a b by (simp add: leftmostX_def)
  show 1: "lineStep options (leftmostX page) [a, b] 0 ([], Fin 0) = Inr (''Name'', Fin 4)"
    using a b o by (simp add: x lineStep_def roundDiv_def js_sub_def)
  show "roundDiv (xpos b - leftmostX page) (characterWidthDivisor options) = Fin 10"
    using b o by (simp add: x roundDiv_def)
  show 2: "lineStep options (leftmostX page) [a, b] 1 (''Name'', Fin 4) =
           Inr (''Name      Age'', Fin 13)"
    using a b o by (simp add: x lineStep_def roundDiv_def js_sub_def eval_nat_numeral)
  have "lineLoop options (leftmostX page) [a, b] 0 ([], Fin 0) = Inr (''Name      Age'', Fin 13)"
    apply (subst lineLoop.simps, simp add: 1)
    apply (subst lineLoop.simps, simp add: 2 [unfolded One_nat_def])
    apply (subst lineLoop.simps, simp)
    done
  then show "pageBody options page = Inr ''Name      Age\<newline>''"
    by (simp add: pageBody_def s l renderLine_def trimEnd_def isWhiteSpace_def)
qed

lemma exCloseLine_spec:
  "spec_line 0 (characterWidthDivisor exOptions) exCloseLine = ''ab cd\<newline>''"
  by (simp add: spec_line_def exCloseLine_def exOptions_def mkOptions_def mkItem_def
      spec_targetColumn_def trimEnd_def isWhiteSpace_def)

lemma exCloseLine_step:
  "lineStep exOptions 0 exCloseLine 0 ([], Fin 0) = Inr (''ab '', Fin 3)"
  by (simp add: lineStep_def exCloseLine_def exOptions_def mkOptions_def mkItem_def
      roundDiv_def js_sub_def)

text \<open>
  C3. A page whose fragments are \<open>"Name"\<close> at \<open>x = 0, y = 100\<close> and \<open>"Age"\<close> at
  \<open>x = 40, y = 100\<close>, with \<open>yTolerance = 2\<close> and \<open>characterWidthDivisor = 4\<close>: the two
  fragments are one row; after \<open>"Name"\<close> the line is \<open>"Name"\<close> with no space added and the
  cursor is 4; \<open>"Age"\<close> has target column 10, six spaces are put before it, and the
  rendered line is \<open>"Name      Age"\<close>, which is the whole layout text of a document of
  this one page numbered 1.
\<close>

theorem C3_name_age_scenario:
  assumes "textItems page = [a, b]"
    and "str a = ''Name''" "xpos a = 0" "ypos a = 100"
    and "str b = ''Age''" "xpos b = 40" "ypos b = 100"
    and "yTolerance options = 2" "characterWidthDivisor options = 4"
  shows "pageLines options page = [[a, b]] \<and>
         lineStep options (leftmostX page) [a, b] 0 ([], Fin 0) = Inr (''Name'', Fin 4) \<and>
         roundDiv (xpos b - leftmostX page) (characterWidthDivisor options) = Fin 10 \<and>
         lineStep options (leftmostX page) [a, b] 1 (''Name'', Fin 4) =
           Inr (''Name'' @ replicate 6 (CHR '' '') @ ''Age'', Fin 13) \<and>
         pageBody options page = Inr ''Name      Age\<newline>'' \<and>
         (pageNumber page = 1 \<longrightarrow>
            fst (reconstructLayout [page] options) = Inr ''Name      Age\<newline>'')"
proof -
  note f = name_age [OF assms]
  have six: "''Name'' @ replicate 6 (CHR '' '') @ ''Age'' = ''Name      Age''"
    by (simp add: eval_nat_numeral)
  have "pageNumber page = 1 \<longrightarrow>
            fst (reconstructLayout [page] options) = Inr ''Name      Age\<newline>''"
    by (simp add: reconstructLayout_Cons reconstructLayout_Nil f(6))
  with f six show ?thesis by simp
qed

theorem C3_name_age_scenario_witness:
  "textItems exNameAge = [mkItem ''Name'' 0 100, mkItem ''Age'' 40 100] \<and>
   yTolerance exOptions = 2 \<and> characterWidthDivisor exOptions = 4 \<and>
   pageNumber exNameAge = 1 \<and>
   pageLines exOptions exNameAge = [[mkItem ''Name'' 0 100, mkItem ''Age'' 40 100]] \<and>
   fst (reconstructLayout [exNameAge] exOptions) = Inr ''Name      Age\<newline>''"
proof -
  have i: "textItems exNameAge = [mkItem ''Name'' 0 100, mkItem ''Age'' 40 100]"
    by (simp add: exNameAge_def mkPage_def)
  have n: "pageNumber exNameAge = 1" by (simp add: exNameAge_def mkPage_def)
  have t: "yTolerance exOptions = 2" and d: "characterWidthDivisor exOptions = 4"
    by (simp_all add: exOptions_def mkOptions_def)
  have "pageLines exOptions exNameAge = [[mkItem ''Name'' 0 100, mkItem ''Age'' 40 100]] \<and>
        (pageNumber exNameAge = 1 \<longrightarrow>
           fst (reconstructLayout [exNameAge] exOptions) = Inr ''Name      Age\<newline>'')"
    using C3_name_age_scenario [OF i _ _ _ _ _ _ t d] by (simp add: mkItem_def)
  with i n t d show ?thesis by simp
qed

text \<open>
  C4. With a non-zero \<open>characterWidthDivisor\<close>: one round of the loop over a row, at a
  fragment with target column \<open>T\<close> and on the cursor \<open>c\<close>, puts \<open>max 0 (T - c)\<close> spaces and
  the fragment's content, and leaves the cursor at \<open>T\<close> plus the length of the content;
  it puts one more space, and moves the cursor by one more, exactly when there is a next
  fragment in the row whose target column minus that cursor is more than 0 and less than
  3. The line of a row is the specification's line: the fragments assembled so from left
  to right from the cursor 0, then the white space at the end stripped and one newline
  appended; and the lines of a page are appended to the text row after row.
\<close>

theorem C4_line_assembly:
  assumes "characterWidthDivisor options \<noteq> 0"
  shows "(\<forall>i acc c. i < length line \<longrightarrow>
            lineStep options leftmost line i (acc, Fin c) =
              (if Suc i < length line \<and>
                  0 < spec_targetColumn leftmost (characterWidthDivisor options) (line ! Suc i)
                        - (spec_targetColumn leftmost (characterWidthDivisor options) (line ! i)
                           + int (length (str (line ! i)))) \<and>
                  spec_targetColumn leftmost (characterWidthDivisor options) (line ! Suc i)
                        - (spec_targetColumn leftmost (characterWidthDivisor options) (line ! i)
                           + int (length (str (line ! i)))) < 3
               then Inr (acc @ replicate (nat (max 0 (spec_targetColumn leftmost
                             (characterWidthDivisor options) (line ! i) - c))) (CHR '' '')
                           @ str (line ! i) @ '' '',
                         Fin (spec_targetColumn leftmost (characterWidthDivisor options) (line ! i)
                           + int (length (str (line ! i))) + 1))
               else Inr (acc @ replicate (nat (max 0 (spec_targetColumn leftmost
                             (characterWidthDivisor options) (line ! i) - c))) (CHR '' '')
                           @ str (line ! i),
                         Fin (spec_targetColumn leftmost (characterWidthDivisor options) (line ! i)
                           + int (length (str (line ! i))))))) \<and>
         renderLine options leftmost line =
           Inr (spec_line leftmost (characterWidthDivisor options) line) \<and>
         renderLines options leftmost rows text0 =
           Inr (text0 @ concat (map (spec_line leftmost (characterWidthDivisor options))
                                 (filter (\<lambda>row. length row \<noteq> 0) rows)))"
  using lineStep_fin [OF assms] renderLine_fin [OF assms] renderLines_fin [OF assms]
  by blast

theorem C4_line_assembly_witness:
  "characterWidthDivisor exOptions \<noteq> 0 \<and> (0::nat) < length exCloseLine \<and>
   lineStep exOptions 0 exCloseLine 0 ([], Fin 0) = Inr (''ab '', Fin 3) \<and>
   renderLine exOptions 0 exCloseLine = Inr ''ab cd\<newline>''"
proof -
  have d: "characterWidthDivisor exOptions \<noteq> 0" by (simp add: exOptions_def mkOptions_def)
  have l: "(0::nat) < length exCloseLine" by (simp add: exCloseLine_def)
  from C4_line_assembly [OF d, of exCloseLine 0]
  have "renderLine exOptions 0 exCloseLine =
          Inr (spec_line 0 (characterWidthDivisor exOptions) exCloseLine)"
    by blast
  then have "renderLine exOptions 0 exCloseLine = Inr ''ab cd\<newline>''"
    by (simp only: exCloseLine_spec)
  with d l exCloseLine_step show ?thesis by blast
qed

text \<open>
  C5. When the reconstruction of a document returns, its text is, for every page of the
  document: the text of the pages before it, then, if the page's number is greater than
  1, the banner of that number, then the lines of the page, then the text of the pages
  after it; a page numbered 1 has no banner. The banner of \<open>n\<close> is two newlines, a rule of
  80 \<open>=\<close>, a newline, \<open>Page\<close>, a space and the supplied number in decimal (its digits,
  without a leading zero, read back as the number: \<open>Page 2\<close>, \<open>Page 3\<close>, \<open>Page 12\<close>), a
  newline, another rule of 80 \<open>=\<close> and two newlines. For three pages numbered 1, 2 and 3
  of one fragment each, the text is the first line, the banner of 2, the second line, the
  banner of 3 and the third line. When no fragment's content holds a newline, the start
  of a banner occurs in that text exactly twice, and the banner of 2 and the banner of 3
  exactly once each; so it is with the fragments \<open>A\<close>, \<open>B\<close> and \<open>C\<close>.
\<close>

theorem C5_page_banner:
  "(\<forall>before page after out.
      fst (reconstructLayout (before @ page # after) options) = Inr out \<longrightarrow>
      (\<exists>pre body post.
         fst (reconstructLayout before options) = Inr pre \<and>
         pageBody options page = Inr body \<and>
         fst (reconstructLayout after options) = Inr post \<and>
         out = pre @ (if 1 < pageNumber page then pageBanner (pageNumber page) else [])
                 @ body @ post)) \<and>
   (\<forall>n. pageBanner n =
      ''\<newline>\<newline>'' @ replicate 80 (CHR ''='') @ ''\<newline>'' @
      ''Page '' @ showInt n @ ''\<newline>'' @
      replicate 80 (CHR ''='') @ ''\<newline>\<newline>'') \<and>
   (\<forall>n. 0 \<le> n \<longrightarrow>
      showInt n \<noteq> [] \<and> list_all isDigit (showInt n) \<and> readNat (showInt n) = nat n \<and>
      (0 < n \<longrightarrow> hd (showInt n) \<noteq> CHR ''0'')) \<and>
   pageBanner 2 = ''\<newline>\<newline>================================================================================\<newline>Page 2\<newline>================================================================================\<newline>\<newline>'' \<and>
   pageBanner 3 = ''\<newline>\<newline>================================================================================\<newline>Page 3\<newline>================================================================================\<newline>\<newline>'' \<and>
   pageBanner 12 = ''\<newline>\<newline>================================================================================\<newline>Page 12\<newline>================================================================================\<newline>\<newline>'' \<and>
   bannerStart = ''\<newline>\<newline>================================================================================\<newline>Page '' \<and>
   (\<forall>n. prefix bannerStart (pageBanner n)) \<and>
   (\<forall>p1 p2 p3 a b c.
      pageNumber p1 = 1 \<and> pageNumber p2 = 2 \<and> pageNumber p3 = 3 \<and>
      textItems p1 = [a] \<and> textItems p2 = [b] \<and> textItems p3 = [c] \<longrightarrow>
      (\<exists>out. fst (reconstructLayout [p1, p2, p3] options) = Inr out \<and>
         out = trimEnd (str a) @ ''\<newline>'' @ pageBanner 2 @ trimEnd (str b) @ ''\<newline>'' @
               pageBanner 3 @ trimEnd (str c) @ ''\<newline>'' \<and>
         (CHR ''\<newline>'' \<notin> set (str a) \<and> CHR ''\<newline>'' \<notin> set (str b) \<and>
          CHR ''\<newline>'' \<notin> set (str c) \<longrightarrow>
            occurrences bannerStart out = 2 \<and> occurrences (pageBanner 2) out = 1 \<and>
            occurrences (pageBanner 3) out = 1))) \<and>
   fst (reconstructLayout exThreePages exOptions) =
     Inr ''A\<newline>\<newline>\<newline>================================================================================\<newline>Page 2\<newline>================================================================================\<newline>\<newline>B\<newline>\<newline>\<newline>================================================================================\<newline>Page 3\<newline>================================================================================\<newline>\<newline>C\<newline>'' \<and>
   occurrences bannerStart
     ''A\<newline>\<newline>\<newline>================================================================================\<newline>Page 2\<newline>================================================================================\<newline>\<newline>B\<newline>\<newline>\<newline>================================================================================\<newline>Page 3\<newline>================================================================================\<newline>\<newline>C\<newline>'' = 2"
proof (intro conjI)
  show "\<forall>before page after out.
      fst (reconstructLayout (before @ page # after) options) = Inr out \<longrightarrow>
      (\<exists>pre body post.
         fst (reconstructLayout before options) = Inr pre \<and>
         pageBody options page = Inr body \<and>
         fst (reconstructLayout after options) = Inr post \<and>
         out = pre @ (if 1 < pageNumber page then pageBanner (pageNumber page) else [])
                 @ body @ post)"
    using reconstructLayout_split by blast
next
  show "\<forall>n. pageBanner n =
      ''\<newline>\<newline>'' @ replicate 80 (CHR ''='') @ ''\<newline>'' @
      ''Page '' @ showInt n @ ''\<newline>'' @
      replicate 80 (CHR ''='') @ ''\<newline>\<newline>''"
    by (simp add: pageBanner_def)
next
  show "\<forall>n. 0 \<le> n \<longrightarrow>
      showInt n \<noteq> [] \<and> list_all isDigit (showInt n) \<and> readNat (showInt n) = nat n \<and>
      (0 < n \<longrightarrow> hd (showInt n) \<noteq> CHR ''0'')"
    using showInt_decimal by blast
next
  show "pageBanner 2 = ''\<newline>\<newline>================================================================================\<newline>Page 2\<newline>================================================================================\<newline>\<newline>''"
    by (rule pageBanner_2_literal)
next
  show "pageBanner 3 = ''\<newline>\<newline>================================================================================\<newline>Page 3\<newline>================================================================================\<newline>\<newline>''"
    by (rule pageBanner_3_literal)
next
  show "pageBanner 12 = ''\<newline>\<newline>================================================================================\<newline>Page 12\<newline>================================================================================\<newline>\<newline>''"
    by (rule pageBanner_12_literal)
next
  show "bannerStart = ''\<newline>\<newline>================================================================================\<newline>Page ''"
    by (rule bannerStart_literal)
next
  show "\<forall>n. prefix bannerStart (pageBanner n)"
    using bannerStart_prefix by blast
next
  show "\<forall>p1 p2 p3 a b c.
      pageNumber p1 = 1 \<and> pageNumber p2 = 2 \<and> pageNumber p3 = 3 \<and>
      textItems p1 = [a] \<and> textItems p2 = [b] \<and> textItems p3 = [c] \<longrightarrow>
      (\<exists>out. fst (reconstructLayout [p1, p2, p3] options) = Inr out \<and>
         out = trimEnd (str a) @ ''\<newline>'' @ pageBanner 2 @ trimEnd (str b) @ ''\<newline>'' @
               pageBanner 3 @ trimEnd (str c) @ ''\<newline>'' \<and>
         (CHR ''\<newline>'' \<notin> set (str a) \<and> CHR ''\<newline>'' \<notin> set (str b) \<and>
          CHR ''\<newline>'' \<notin> set (str c) \<longrightarrow>
            occurrences bannerStart out = 2 \<and> occurrences (pageBanner 2) out = 1 \<and>
            occurrences (pageBanner 3) out = 1))"
    using three_pages_counts by blast
next
  show "fst (reconstructLayout exThreePages exOptions) =
     Inr ''A\<newline>\<newline>\<newline>================================================================================\<newline>Page 2\<newline>================================================================================\<newline>\<newline>B\<newline>\<newline>\<newline>================================================================================\<newline>Page 3\<newline>================================================================================\<newline>\<newline>C\<newline>''"
    using exThreePages_text by (simp only: exThreePages_literal)
next
  show "occurrences bannerStart
     ''A\<newline>\<newline>\<newline>================================================================================\<newline>Page 2\<newline>================================================================================\<newline>\<newline>B\<newline>\<newline>\<newline>================================================================================\<newline>Page 3\<newline>================================================================================\<newline>\<newline>C\<newline>'' = 2"
    using exThreePages_count by (simp only: exThreePages_literal)
qed

theorem C5_page_banner_witness:
  "pageNumber (mkPage 1 [mkItem ''A'' 10 700]) = 1 \<and>
   pageNumber (mkPage 2 [mkItem ''B'' 10 700]) = 2 \<and>
   pageNumber (mkPage 3 [mkItem ''C'' 10 700]) = 3 \<and>
   textItems (mkPage 1 [mkItem ''A'' 10 700]) = [mkItem ''A'' 10 700] \<and>
   textItems (mkPage 2 [mkItem ''B'' 10 700]) = [mkItem ''B'' 10 700] \<and>
   textItems (mkPage 3 [mkItem ''C'' 10 700]) = [mkItem ''C'' 10 700] \<and>
   CHR ''\<newline>'' \<notin> set (str (mkItem ''A'' 10 700)) \<and>
   CHR ''\<newline>'' \<notin> set (str (mkItem ''B'' 10 700)) \<and>
   CHR ''\<newline>'' \<notin> set (str (mkItem ''C'' 10 700)) \<and>
   fst (reconstructLayout
          [mkPage 1 [mkItem ''A'' 10 700], mkPage 2 [mkItem ''B'' 10 700],
           mkPage 3 [mkItem ''C'' 10 700]] exOptions) =
     Inr (''A\<newline>'' @ pageBanner 2 @ ''B\<newline>'' @ pageBanner 3 @ ''C\<newline>'') \<and>
   occurrences bannerStart
     (''A\<newline>'' @ pageBanner 2 @ ''B\<newline>'' @ pageBanner 3 @ ''C\<newline>'') = 2 \<and>
   occurrences (pageBanner 2)
     (''A\<newline>'' @ pageBanner 2 @ ''B\<newline>'' @ pageBanner 3 @ ''C\<newline>'') = 1 \<and>
   occurrences (pageBanner 3)
     (''A\<newline>'' @ pageBanner 2 @ ''B\<newline>'' @ pageBanner 3 @ ''C\<newline>'') = 1 \<and>
   (0::int) \<le> 12 \<and> showInt 12 = ''12'' \<and> readNat (showInt 12) = nat 12"
proof -
  have h: "pageNumber (mkPage 1 [mkItem ''A'' 10 700]) = 1 \<and>
      pageNumber (mkPage 2 [mkItem ''B'' 10 700]) = 2 \<and>
      pageNumber (mkPage 3 [mkItem ''C'' 10 700]) = 3 \<and>
      textItems (mkPage 1 [mkItem ''A'' 10 700]) = [mkItem ''A'' 10 700] \<and>
      textItems (mkPage 2 [mkItem ''B'' 10 700]) = [mkItem ''B'' 10 700] \<and>
      textItems (mkPage 3 [mkItem ''C'' 10 700]) = [mkItem ''C'' 10 700]"
    by (simp add: mkPage_def)
  have n: "CHR ''\<newline>'' \<notin> set (str (mkItem ''A'' 10 700)) \<and>
      CHR ''\<newline>'' \<notin> set (str (mkItem ''B'' 10 700)) \<and>
      CHR ''\<newline>'' \<notin> set (str (mkItem ''C'' 10 700))"
    by (simp add: mkItem_def)
  from C5_page_banner [of exOptions] h n
  obtain out where o: "fst (reconstructLayout
          [mkPage 1 [mkItem ''A'' 10 700], mkPage 2 [mkItem ''B'' 10 700],
           mkPage 3 [mkItem ''C'' 10 700]] exOptions) = Inr out"
    "out = trimEnd (str (mkItem ''A'' 10 700)) @ ''\<newline>'' @ pageBanner 2 @
           trimEnd (str (mkItem ''B'' 10 700)) @ ''\<newline>'' @
           pageBanner 3 @ trimEnd (str (mkItem ''C'' 10 700)) @ ''\<newline>''"
    "occurrences bannerStart out = 2" "occurrences (pageBanner 2) out = 1"
    "occurrences (pageBanner 3) out = 1"
    by blast
  have e: "out = ''A\<newline>'' @ pageBanner 2 @ ''B\<newline>'' @ pageBanner 3 @ ''C\<newline>''"
    using o(2) by (simp add: mkItem_def trimEnd_A)
  from C5_page_banner [of exOptions]
  have r: "readNat (showInt 12) = nat 12" by simp
  have s: "showInt 12 = ''12''"
    by (simp add: showInt_def showNat.simps digitChar_def)
  from h n o(1,3,4,5) r s show ?thesis unfolding e by simp
qed

theorem C5_two_occurrences_counterexample:
  "map pageNumber exBannerPages = [1, 2, 3] \<and>
   map textItems exBannerPages =
     [[mkItem (bannerStart @ ''9'') 10 700], [mkItem ''B'' 10 700], [mkItem ''C'' 10 700]] \<and>
   fst (reconstructLayout exBannerPages exOptions) =
     Inr (bannerStart @ ''9\<newline>'' @ pageBanner 2 @ ''B\<newline>'' @ pageBanner 3 @ ''C\<newline>'') \<and>
   occurrences bannerStart
     (bannerStart @ ''9\<newline>'' @ pageBanner 2 @ ''B\<newline>'' @ pageBanner 3 @ ''C\<newline>'') = 3"
  using exBannerPages_shape exBannerPages_text exBannerPages_count
  by simp

section \<open>Claims about the entry point and the initial sort\<close>

lemma exOneDoc_pages:
  "pagesLoop opts (docPages exOneDoc) 1 [] [] 0 =
     (''A'',
      if includeLayout opts
      then [\<lparr>pageNumber = 1, textItems = [mkItem ''A'' 0 100],
             viewport = \<lparr>vp_width = 612, vp_height = 792, vp_scale = 1\<rparr>\<rparr>]
      else [],
      1)"
  by (simp add: exOneDoc_def mkDoc_def mkPdfItem_def mkItem_def)

lemma exOneDoc_layout:
  "fst (reconstructLayout
          [\<lparr>pageNumber = 1, textItems = [mkItem ''A'' 0 100],
            viewport = \<lparr>vp_width = 612, vp_height = 792, vp_scale = 1\<rparr>\<rparr>] opts) =
     Inr ''A\<newline>''"
  by (simp add: reconstructLayout_Cons reconstructLayout_Nil pageBody_single mkItem_def trimEnd_A)

lemma exOneDoc_bad:
  "map_sum errorMessage layoutTextOf (fst (extractTextFromPdf (Inr exOneDoc) exBadOptions)) =
     Inr (Some ''A\<newline>'')"
proof -
  have i: "includeLayout (mergeOptions exBadOptions)"
    by (simp add: exBadOptions_def mkUserOptions_def mergeOptions_def)
  obtain r lg where rl: "reconstructLayout
          [\<lparr>pageNumber = 1, textItems = [mkItem ''A'' 0 100],
            viewport = \<lparr>vp_width = 612, vp_height = 792, vp_scale = 1\<rparr>\<rparr>]
          (mergeOptions exBadOptions) = (r, lg)"
    by (cases "reconstructLayout
          [\<lparr>pageNumber = 1, textItems = [mkItem ''A'' 0 100],
            viewport = \<lparr>vp_width = 612, vp_height = 792, vp_scale = 1\<rparr>\<rparr>]
          (mergeOptions exBadOptions)") auto
  have "r = Inr ''A\<newline>''"
    using exOneDoc_layout [of "mergeOptions exBadOptions"] rl by simp
  with i rl show ?thesis
    by (simp add: extractTextFromPdf_def exOneDoc_pages Let_def)
qed

lemma exOneDoc_debug:
  "snd (extractTextFromPdf (Inr exOneDoc) (exLayoutOptions\<lparr>enableDebug_opt := Some True\<rparr>)) =
     [''DEBUG: '' @ [CHR 0x22] @ ''A'' @ [CHR 0x22] @ '' y=100.00 x=0.00 grouped with 1 items'']"
  by (simp add: extractTextFromPdf_def exOneDoc_pages exLayoutOptions_def mkUserOptions_def
      mergeOptions_def reconstructLayout_def layoutPage_def sortedItems_def pageLines_def
      yGroups_def clusterItems_def clusterStep_def sortedYGroups_def leftmostX_def
      renderLine_def lineLoop.simps lineStep_def roundDiv_def js_sub_def mkItem_def
      pageDebug_def groupDebug_def debugMessage_def toFixed2_def showNat.simps digitChar_def
      trimEnd_def isWhiteSpace_def)

lemma exEolDoc_flat:
  "extractTextFromPdf (Inr exEolDoc) exFlatOptions = (Inr (FlatText ''A\<newline>B''), [])"
  by (simp add: extractTextFromPdf_def exEolDoc_def mkDoc_def mkPdfItem_def exFlatOptions_def
      mkUserOptions_def mergeOptions_def)

lemma exEolDoc_fragments:
  "docFragments exEolDoc = [mkPdfItem ''A'' 0 100 True, mkPdfItem ''B'' 0 90 False]"
  by (simp add: docFragments_def exEolDoc_def mkDoc_def)

text \<open>
  C6. For every outcome of reading and parsing and all values of the other options, what
  \<open>extractTextFromPdf\<close> returns (the flat text, the layout text and the rest of the
  result, or the error) with \<open>enableDebug\<close> set is what it returns with \<open>enableDebug\<close>
  unset or absent, and without the flag the diagnostic channel stays empty. The same holds
  of \<open>reconstructLayout\<close> itself.
\<close>

theorem C6_debug_neutral:
  "fst (extractTextFromPdf source (options\<lparr>enableDebug_opt := Some True\<rparr>)) =
     fst (extractTextFromPdf source (options\<lparr>enableDebug_opt := Some False\<rparr>)) \<and>
   fst (extractTextFromPdf source (options\<lparr>enableDebug_opt := Some True\<rparr>)) =
     fst (extractTextFromPdf source (options\<lparr>enableDebug_opt := None\<rparr>)) \<and>
   snd (extractTextFromPdf source (options\<lparr>enableDebug_opt := Some False\<rparr>)) = [] \<and>
   snd (extractTextFromPdf source (options\<lparr>enableDebug_opt := None\<rparr>)) = [] \<and>
   fst (reconstructLayout layouts (opts\<lparr>enableDebug := True\<rparr>)) =
     fst (reconstructLayout layouts (opts\<lparr>enableDebug := False\<rparr>)) \<and>
   snd (reconstructLayout layouts (opts\<lparr>enableDebug := False\<rparr>)) = []"
proof (intro conjI)
  show "fst (extractTextFromPdf source (options\<lparr>enableDebug_opt := Some True\<rparr>)) =
     fst (extractTextFromPdf source (options\<lparr>enableDebug_opt := Some False\<rparr>))"
    by (rule extract_debug_neutral) simp_all
  show "fst (extractTextFromPdf source (options\<lparr>enableDebug_opt := Some True\<rparr>)) =
     fst (extractTextFromPdf source (options\<lparr>enableDebug_opt := None\<rparr>))"
    by (rule extract_debug_neutral) simp_all
  show "snd (extractTextFromPdf source (options\<lparr>enableDebug_opt := Some False\<rparr>)) = []"
    by (rule extract_quiet) (simp add: mergeOptions_def)
  show "snd (extractTextFromPdf source (options\<lparr>enableDebug_opt := None\<rparr>)) = []"
    by (rule extract_quiet) (simp add: mergeOptions_def)
  show "fst (reconstructLayout layouts (opts\<lparr>enableDebug := True\<rparr>)) =
     fst (reconstructLayout layouts (opts\<lparr>enableDebug := False\<rparr>))"
    by (rule reconstructLayout_cong) simp_all
  show "snd (reconstructLayout layouts (opts\<lparr>enableDebug := False\<rparr>)) = []"
    by (rule reconstructLayout_quiet) simp
qed

theorem C6_debug_neutral_witness:
  "fst (extractTextFromPdf (Inr exOneDoc) (exLayoutOptions\<lparr>enableDebug_opt := Some True\<rparr>)) =
     fst (extractTextFromPdf (Inr exOneDoc) (exLayoutOptions\<lparr>enableDebug_opt := Some False\<rparr>)) \<and>
   snd (extractTextFromPdf (Inr exOneDoc) (exLayoutOptions\<lparr>enableDebug_opt := Some False\<rparr>)) = [] \<and>
   snd (extractTextFromPdf (Inr exOneDoc) (exLayoutOptions\<lparr>enableDebug_opt := Some True\<rparr>)) =
     [''DEBUG: '' @ [CHR 0x22] @ ''A'' @ [CHR 0x22] @ '' y=100.00 x=0.00 grouped with 1 items'']"
  using C6_debug_neutral [of "Inr exOneDoc" exLayoutOptions] exOneDoc_debug
  by blast

text \<open>
  C7. The entry point does not check \<open>yTolerance\<close> or \<open>characterWidthDivisor\<close>. For a
  document that was read and parsed: without \<open>includeLayout\<close> it returns the flat text,
  whatever the two values are; with \<open>includeLayout\<close> and a \<open>characterWidthDivisor\<close> other
  than zero it returns a layout result, whose pages are those collected from the document
  and whose layout text is what \<open>reconstructLayout\<close> makes of these pages with the
  options as given, for every \<open>yTolerance\<close>, positive or not.
\<close>

theorem C7_no_option_check:
  "(\<not> includeLayout (mergeOptions options) \<longrightarrow>
      extractTextFromPdf (Inr pdf) options =
        (Inr (FlatText (concat (map flatPiece (docFragments pdf)))), [])) \<and>
   (includeLayout (mergeOptions options) \<and> characterWidthDivisor (mergeOptions options) \<noteq> 0 \<longrightarrow>
      (\<exists>d. fst (extractTextFromPdf (Inr pdf) options) = Inr (LayoutResult d) \<and>
           pageLayouts d =
             fst (snd (pagesLoop (mergeOptions options) (docPages pdf) 1 [] [] 0)) \<and>
           fst (reconstructLayout (pageLayouts d) (mergeOptions options)) = Inr (layoutText d)))"
  using flat_text_only [of options pdf] extract_layout_total [of options pdf]
  by blast

theorem C7_no_option_check_witness:
  "includeLayout (mergeOptions exBadOptions) \<and>
   characterWidthDivisor (mergeOptions exBadOptions) \<noteq> 0 \<and>
   yTolerance (mergeOptions exBadOptions) \<le> 0 \<and>
   characterWidthDivisor (mergeOptions exBadOptions) \<le> 0 \<and>
   (\<exists>d. fst (extractTextFromPdf (Inr exOneDoc) exBadOptions) = Inr (LayoutResult d) \<and>
        fst (reconstructLayout (pageLayouts d) (mergeOptions exBadOptions)) = Inr (layoutText d))"
proof -
  have o: "includeLayout (mergeOptions exBadOptions)"
    "characterWidthDivisor (mergeOptions exBadOptions) \<noteq> 0"
    "yTolerance (mergeOptions exBadOptions) \<le> 0"
    "characterWidthDivisor (mergeOptions exBadOptions) \<le> 0"
    by (simp_all add: exBadOptions_def mkUserOptions_def mergeOptions_def)
  with C7_no_option_check [of exBadOptions exOneDoc] show ?thesis by blast
qed

theorem C7_rejects_counterexample:
  "yTolerance (mergeOptions exBadOptions) \<le> 0 \<and>
   characterWidthDivisor (mergeOptions exBadOptions) \<le> 0 \<and>
   map_sum errorMessage layoutTextOf (fst (extractTextFromPdf (Inr exOneDoc) exBadOptions)) =
     Inr (Some ''A\<newline>'')"
  using exOneDoc_bad
  by (simp add: exBadOptions_def mkUserOptions_def mergeOptions_def)

text \<open>
  C8. The first pass processes the fragments of a page in the order of the initial sort.
  That order is a rearrangement of the page's fragments. Its comparator puts two fragments
  whose \<open>y\<close> differ by less than 10 in the order of ascending \<open>x\<close>, whatever their \<open>y\<close>,
  and by descending \<open>y\<close> only otherwise. When any two fragments of the page have the same
  \<open>y\<close> or are at least 10 apart in \<open>y\<close>, the order is the specification's: descending
  \<open>y\<close>, ascending \<open>x\<close> as the secondary key.
\<close>

theorem C8_initial_sort:
  "yGroups options page = clusterItems (yTolerance options) (sortedItems page) \<and>
   mset (sortedItems page) = mset (textItems page) \<and>
   ((\<forall>a\<in>set (textItems page). \<forall>b\<in>set (textItems page).
        ypos a = ypos b \<or> 10 \<le> \<bar>ypos a - ypos b\<bar>) \<longrightarrow>
      sortedItems page = spec_initialSort (textItems page)) \<and>
   (\<forall>a b. textItems page = [a, b] \<and> \<bar>ypos a - ypos b\<bar> < 10 \<longrightarrow>
      sortedItems page = (if xpos a \<le> xpos b then [a, b] else [b, a]))"
proof (intro conjI)
  show "yGroups options page = clusterItems (yTolerance options) (sortedItems page)"
    by (simp add: yGroups_def)
  show "mset (sortedItems page) = mset (textItems page)"
    by (simp add: sortedItems_def mset_sort_cmp)
  show "(\<forall>a\<in>set (textItems page). \<forall>b\<in>set (textItems page).
        ypos a = ypos b \<or> 10 \<le> \<bar>ypos a - ypos b\<bar>) \<longrightarrow>
      sortedItems page = spec_initialSort (textItems page)"
    unfolding sortedItems_def using sort_cmp_spec by blast
  show "\<forall>a b. textItems page = [a, b] \<and> \<bar>ypos a - ypos b\<bar> < 10 \<longrightarrow>
      sortedItems page = (if xpos a \<le> xpos b then [a, b] else [b, a])"
    using sorted_pair_band by blast
qed

theorem C8_initial_sort_witness:
  "list_all (\<lambda>a. list_all (\<lambda>b. ypos a = ypos b \<or> 10 \<le> \<bar>ypos a - ypos b\<bar>)
                 (textItems exApart)) (textItems exApart) \<and>
   sortedItems exApart = spec_initialSort (textItems exApart) \<and>
   sortedItems exApart = [mkItem ''a'' 0 100, mkItem ''b'' 40 100, mkItem ''c'' 0 50]"
proof -
  have h: "list_all (\<lambda>a. list_all (\<lambda>b. ypos a = ypos b \<or> 10 \<le> \<bar>ypos a - ypos b\<bar>)
                 (textItems exApart)) (textItems exApart)"
    by (simp add: exApart_def mkPage_def mkItem_def)
  then have "\<forall>a\<in>set (textItems exApart). \<forall>b\<in>set (textItems exApart).
        ypos a = ypos b \<or> 10 \<le> \<bar>ypos a - ypos b\<bar>"
    unfolding list_all_iff .
  with C8_initial_sort [of exOptions exApart]
  have "sortedItems exApart = spec_initialSort (textItems exApart)" by blast
  with h exApart_sorted show ?thesis by blast
qed

theorem C8_descending_y_counterexample:
  "sortedItems exBand = [mkItem ''a'' 0 100, mkItem ''b'' 50 105] \<and>
   spec_initialSort (textItems exBand) = [mkItem ''b'' 50 105, mkItem ''a'' 0 100] \<and>
   sortedItems exBand \<noteq> spec_initialSort (textItems exBand)"
  by (simp add: exBand_sorted exBand_spec mkItem_def)

text \<open>
  C9. The flat text of every result is the concatenation, in parse order, page by page,
  of what each fragment adds: its content, followed by a newline when the fragment is
  marked as ending a line (\<open>hasEOL\<close>). Without \<open>includeLayout\<close> that text is the whole
  result. When no fragment is so marked, it is the concatenation of the contents with
  nothing between them.
\<close>

theorem C9_flat_text:
  "(\<forall>r. fst (extractTextFromPdf (Inr pdf) options) = Inr r \<longrightarrow>
        flatTextOf r = concat (map flatPiece (docFragments pdf))) \<and>
   (\<forall>item. flatPiece item = str item @ (if hasEOL item then ''\<newline>'' else [])) \<and>
   (\<not> includeLayout (mergeOptions options) \<longrightarrow>
      extractTextFromPdf (Inr pdf) options =
        (Inr (FlatText (concat (map flatPiece (docFragments pdf)))), [])) \<and>
   (list_all (\<lambda>item. \<not> hasEOL item) (docFragments pdf) \<longrightarrow>
      concat (map flatPiece (docFragments pdf)) = concat (map str (docFragments pdf)))"
  using flat_text_of_result [of pdf options] flat_text_only [of options pdf]
    flatPiece_no_eol [of "docFragments pdf"]
  by (simp add: flatPiece_def)

theorem C9_flat_text_witness:
  "\<not> includeLayout (mergeOptions exFlatOptions) \<and>
   fst (extractTextFromPdf (Inr exEolDoc) exFlatOptions) = Inr (FlatText ''A\<newline>B'') \<and>
   flatTextOf (FlatText ''A\<newline>B'') = concat (map flatPiece (docFragments exEolDoc))"
proof -
  have n: "\<not> includeLayout (mergeOptions exFlatOptions)"
    by (simp add: exFlatOptions_def mkUserOptions_def mergeOptions_def)
  have f: "fst (extractTextFromPdf (Inr exEolDoc) exFlatOptions) = Inr (FlatText ''A\<newline>B'')"
    by (simp add: exEolDoc_flat)
  with C9_flat_text [of exEolDoc exFlatOptions]
  have "flatTextOf (FlatText ''A\<newline>B'') = concat (map flatPiece (docFragments exEolDoc))"
    by blast
  with n f show ?thesis by blast
qed

theorem C9_nothing_inserted_counterexample:
  "fst (extractTextFromPdf (Inr exEolDoc) exFlatOptions) = Inr (FlatText ''A\<newline>B'') \<and>
   concat (map str (docFragments exEolDoc)) = ''AB'' \<and>
   fst (extractTextFromPdf (Inr exEolDoc) exFlatOptions) \<noteq>
     Inr (FlatText (concat (map str (docFragments exEolDoc))))"
  by (simp add: exEolDoc_flat exEolDoc_fragments mkPdfItem_def)

end
